theory Spec2Isabelle
  imports
    Complex_Main
    "HOL-Library.Char_ord"
    "HOL-Library.List_Lexorder"
    "HOL-Library.Product_Lexorder"
    "HOL-Library.Multiset"
    "HOL-Library.Log_Nat"
begin

section \<open>Shared data: bytes, errors, printed messages\<close>

text \<open>
  The model follows \<^verbatim>\<open>storage.py\<close> and the frame loop of \<^verbatim>\<open>vid2frame.py\<close>.
  A Python \<^verbatim>\<open>bytes\<close> value and a file name are both \<open>string\<close> (a list of 8-bit
  characters). A directory that is only read is a partial map from file name to content.
  Every exception the modelled code can raise is a constructor of \<open>error\<close>; every
  \<^verbatim>\<open>print\<close> is a \<open>msg\<close> appended to an output list.
\<close>

type_synonym bytes = string

type_synonym src_dir = "string \<rightharpoonup> bytes"

datatype error =
    FileNotFoundError
  | FileExistsError
  | NameExistsError
  | UnboundLocalError
  | ValueError
  | ZeroDivisionError

datatype msg =
    NoVideoFramesFound
  | ReadingFailed string
  | SeenBefore string
  | FrameRateZero string
  | DuplicatesRemoved string nat nat

section \<open>Frame keys\<close>

text \<open>
  \<^verbatim>\<open>f"{video_key}/{ith_frame:08d}"\<close>: the decimal digits of the index, padded on the
  left with zeros to at least eight characters (a longer number is not cut).
\<close>

definition digit_char :: "nat \<Rightarrow> char" where
  "digit_char d = char_of (48 + d)"

fun decimal :: "nat \<Rightarrow> string" where
  "decimal n = (if n < 10 then [digit_char n] else decimal (n div 10) @ [digit_char (n mod 10)])"

definition fmt08d :: "nat \<Rightarrow> string" where
  "fmt08d n = replicate (8 - length (decimal n)) (CHR ''0'') @ decimal n"

definition frame_key :: "string \<Rightarrow> nat \<Rightarrow> string" where
  "frame_key video_key ith_frame = video_key @ ''/'' @ fmt08d ith_frame"

text \<open>The inverse reading of a zero-padded decimal, used to show keys injective.\<close>

definition digit_val :: "char \<Rightarrow> nat" where
  "digit_val c = of_char c - 48"

definition decimal_val :: "string \<Rightarrow> nat" where
  "decimal_val s = foldl (\<lambda>a c. 10 * a + digit_val c) 0 s"

section \<open>Containers\<close>

text \<open>
  An ordered key-value container: LMDB keeps its entries in ascending key order
  (bytewise lexicographic), and an HDF5 group lists its members by name. \<open>ord_put\<close>
  stores a value under a key, replacing the value of a key already present.
\<close>

fun ord_put :: "string \<Rightarrow> 'v \<Rightarrow> (string \<times> 'v) list \<Rightarrow> (string \<times> 'v) list" where
  "ord_put k v [] = [(k, v)]"
| "ord_put k v ((k', v') # rest) =
     (if k = k' then (k, v) # rest
      else if k < k' then (k, v) # (k', v') # rest
      else (k', v') # ord_put k v rest)"

text \<open>
  A directory listing: entries in the order the file system enumerates them, which
  Python leaves unspecified. \<open>dir_put\<close> overwrites an existing entry in place and
  appends a new one.
\<close>

fun dir_put :: "string \<Rightarrow> 'v \<Rightarrow> (string \<times> 'v) list \<Rightarrow> (string \<times> 'v) list" where
  "dir_put k v [] = [(k, v)]"
| "dir_put k v ((k', v') # rest) =
     (if k = k' then (k, v) # rest else (k', v') # dir_put k v rest)"

type_synonym kv = "(string \<times> bytes) list"

type_synonym h5 = "(string \<times> (string \<times> bytes) list) list"

datatype node = Dir | File bytes

type_synonym tree = "(string \<times> node) list"

type_synonym pkldir = "(string \<times> bytes list option) list"

section \<open>The metadata scan shared by the four \<^verbatim>\<open>info\<close> methods\<close>

text \<open>
  \<^verbatim>\<open>info = {}\<close> is a dictionary from \<^verbatim>\<open>str(img.size)\<close> to a count, kept here as an
  association list in insertion order with the size pair itself as key. The local
  variable \<^verbatim>\<open>img\<close> is unbound until the first successful \<^verbatim>\<open>Image.open\<close>: it is
  \<open>None\<close> until then. \<open>decode\<close> stands for \<^verbatim>\<open>Image.open\<close> (of the PIL library):
  it gives the image size, or \<open>None\<close> where \<^verbatim>\<open>Image.open\<close> raises. The sample image
  is represented by the bytes it was opened from.
\<close>

type_synonym report = "((nat \<times> nat) \<times> nat) list"

type_synonym decoder = "bytes \<Rightarrow> (nat \<times> nat) option"

record scan =
  info_d :: report
  img :: "bytes option"
  out :: "msg list"

definition scan0 :: scan where
  "scan0 = \<lparr>info_d = [], img = None, out = []\<rparr>"

fun assign :: "(nat \<times> nat) \<Rightarrow> nat \<Rightarrow> report \<Rightarrow> report" where
  "assign ik c [] = [(ik, c)]"
| "assign ik c ((k, c') # rest) =
     (if ik = k then (k, c) # rest else (k, c') # assign ik c rest)"

definition tally :: "report \<Rightarrow> (nat \<times> nat) \<Rightarrow> report" where
  "tally info ik = assign ik ((case map_of info ik of None \<Rightarrow> 0 | Some c \<Rightarrow> c) + 1) info"

text \<open>
  The body of each scan loop:
  \<^verbatim>\<open>try: img = Image.open(..); ik = str(img.size); info[ik] = info.get(ik, 0) + 1\<close>
  \<^verbatim>\<open>except: print(f"reading failed for {k}")\<close>.
\<close>

definition visit :: "decoder \<Rightarrow> string \<Rightarrow> bytes \<Rightarrow> scan \<Rightarrow> scan" where
  "visit decode k v s =
     (case decode v of
        Some sz \<Rightarrow> s\<lparr>img := Some v, info_d := tally (info_d s) sz\<rparr>
      | None \<Rightarrow> s\<lparr>out := out s @ [ReadingFailed k]\<rparr>)"

text \<open>\<^verbatim>\<open>return info, img\<close>: reading the unbound local \<^verbatim>\<open>img\<close> raises.\<close>

definition finish :: "scan \<Rightarrow> msg list \<times> (error + report \<times> bytes)" where
  "finish s =
     (case img s of
        None \<Rightarrow> (out s, Inl UnboundLocalError)
      | Some i \<Rightarrow> (out s, Inr (info_d s, i)))"

definition total :: "report \<Rightarrow> nat" where
  "total info = sum_list (map snd info)"

section \<open>LMDBStorage\<close>

text \<open>
  \<^verbatim>\<open>put\<close> runs its loop inside \<^verbatim>\<open>with self.database.begin(write=True) as txn\<close>:
  the loop works on the transaction's view \<open>txn\<close>; leaving the block normally commits
  it, leaving it by an exception aborts it and the database is as before.
\<close>

fun LMDB_put_loop :: "string \<Rightarrow> src_dir \<Rightarrow> nat \<Rightarrow> (int \<times> string) list \<Rightarrow> kv \<Rightarrow> error + kv" where
  "LMDB_put_loop video_key clip_tmp_dir ith_frame [] txn = Inr txn"
| "LMDB_put_loop video_key clip_tmp_dir ith_frame ((frame_id, frame_path) # rest) txn =
     (case clip_tmp_dir frame_path of
        None \<Rightarrow> Inl FileNotFoundError
      | Some data \<Rightarrow>
          LMDB_put_loop video_key clip_tmp_dir (Suc ith_frame) rest
            (ord_put (frame_key video_key ith_frame) data txn))"

definition LMDB_put :: "kv \<Rightarrow> string \<Rightarrow> src_dir \<Rightarrow> (int \<times> string) list \<Rightarrow> error option \<times> kv" where
  "LMDB_put db video_key clip_tmp_dir frame_files =
     (case LMDB_put_loop video_key clip_tmp_dir 0 frame_files db of
        Inl e \<Rightarrow> (Some e, db)
      | Inr txn \<Rightarrow> (None, txn))"

definition LMDB_info :: "decoder \<Rightarrow> kv \<Rightarrow> msg list \<times> (error + report \<times> bytes)" where
  "LMDB_info decode db = finish (fold (\<lambda>(k, v). visit decode k v) db scan0)"

section \<open>HDF5Storage\<close>

text \<open>
  The file is a list of groups (one per video key), each a list of named blobs.
  \<^verbatim>\<open>self.database[key] = np.void(data)\<close> resolves the name \<^verbatim>\<open>video_key/index\<close> at
  its first slash into group and member, creates the group when it is missing, and
  raises when the member already exists. There is no transaction: entries written
  before an error stay.
\<close>

definition h5_split :: "string \<Rightarrow> string \<times> string" where
  "h5_split key = (takeWhile (\<lambda>c. c \<noteq> CHR ''/'') key, drop 1 (dropWhile (\<lambda>c. c \<noteq> CHR ''/'') key))"

definition h5_create :: "string \<Rightarrow> bytes \<Rightarrow> h5 \<Rightarrow> error + h5" where
  "h5_create key data db =
     (let (g, m) = h5_split key in
      case map_of db g of
        None \<Rightarrow> Inr (ord_put g [(m, data)] db)
      | Some members \<Rightarrow>
          (case map_of members m of
             Some old \<Rightarrow> Inl NameExistsError
           | None \<Rightarrow> Inr (ord_put g (ord_put m data members) db)))"

text \<open>Reading a member back, as \<^verbatim>\<open>frame_db[vid][fid]\<close> does.\<close>

definition h5_member :: "h5 \<Rightarrow> string \<Rightarrow> string \<Rightarrow> bytes option" where
  "h5_member db g m = (case map_of db g of None \<Rightarrow> None | Some members \<Rightarrow> map_of members m)"

definition h5_get :: "h5 \<Rightarrow> string \<Rightarrow> bytes option" where
  "h5_get db key = (let (g, m) = h5_split key in h5_member db g m)"

fun HDF5_put_loop :: "string \<Rightarrow> src_dir \<Rightarrow> nat \<Rightarrow> (int \<times> string) list \<Rightarrow> h5 \<Rightarrow> error option \<times> h5" where
  "HDF5_put_loop video_key clip_tmp_dir ith_frame [] db = (None, db)"
| "HDF5_put_loop video_key clip_tmp_dir ith_frame ((frame_id, frame_path) # rest) db =
     (case clip_tmp_dir frame_path of
        None \<Rightarrow> (Some FileNotFoundError, db)
      | Some data \<Rightarrow>
          (case h5_create (frame_key video_key ith_frame) data db of
             Inl e \<Rightarrow> (Some e, db)
           | Inr db' \<Rightarrow> HDF5_put_loop video_key clip_tmp_dir (Suc ith_frame) rest db'))"

definition HDF5_put :: "h5 \<Rightarrow> string \<Rightarrow> src_dir \<Rightarrow> (int \<times> string) list \<Rightarrow> error option \<times> h5" where
  "HDF5_put db video_key clip_tmp_dir frame_files = HDF5_put_loop video_key clip_tmp_dir 0 frame_files db"

definition HDF5_scan_group :: "decoder \<Rightarrow> string \<times> (string \<times> bytes) list \<Rightarrow> scan \<Rightarrow> scan" where
  "HDF5_scan_group decode g s = fold (\<lambda>(fid, b). visit decode (fst g @ ''/'' @ fid) b) (snd g) s"

definition HDF5_info :: "decoder \<Rightarrow> h5 \<Rightarrow> msg list \<times> (error + report \<times> bytes)" where
  "HDF5_info decode frame_db =
     (let s0 = (if length frame_db = 0 then scan0\<lparr>out := [NoVideoFramesFound]\<rparr> else scan0)
      in finish (fold (HDF5_scan_group decode) frame_db s0))"

text \<open>
  The constructor opens the file with mode \<^verbatim>\<open>'w-'\<close> (create, fail if it exists).
  \<open>disk\<close> maps each path to the HDF5 file stored there, if any.
\<close>

definition HDF5_init :: "(string \<rightharpoonup> h5) \<Rightarrow> string \<Rightarrow> error + (string \<rightharpoonup> h5)" where
  "HDF5_init disk path =
     (case disk path of
        Some existing \<Rightarrow> Inl FileExistsError
      | None \<Rightarrow> Inr (disk(path \<mapsto> [])))"

section \<open>PKLStorage\<close>

text \<open>
  The storage path is a directory with one subdirectory per video key, holding the
  file \<^verbatim>\<open>frames.pkl\<close> (the pickled list of frame bytes) once \<^verbatim>\<open>put\<close> has dumped it.
  \<^verbatim>\<open>put\<close> makes the subdirectory first, then reads every frame, then dumps.
\<close>

fun read_all :: "src_dir \<Rightarrow> (int \<times> string) list \<Rightarrow> error + bytes list" where
  "read_all clip_tmp_dir [] = Inr []"
| "read_all clip_tmp_dir ((frame_id, frame_path) # rest) =
     (case clip_tmp_dir frame_path of
        None \<Rightarrow> Inl FileNotFoundError
      | Some data \<Rightarrow>
          (case read_all clip_tmp_dir rest of
             Inl e \<Rightarrow> Inl e
           | Inr frame_data \<Rightarrow> Inr (data # frame_data)))"

definition PKL_put :: "pkldir \<Rightarrow> string \<Rightarrow> src_dir \<Rightarrow> (int \<times> string) list \<Rightarrow> error option \<times> pkldir" where
  "PKL_put db video_key clip_tmp_dir frame_files =
     (let made = (case map_of db video_key of None \<Rightarrow> dir_put video_key None db | Some x \<Rightarrow> db)
      in case read_all clip_tmp_dir frame_files of
           Inl e \<Rightarrow> (Some e, made)
         | Inr frame_data \<Rightarrow> (None, dir_put video_key (Some frame_data) made))"

text \<open>
  \<^verbatim>\<open>info\<close> opens \<^verbatim>\<open>frames.pkl\<close> of every subdirectory; a subdirectory without it
  raises, after whatever the scan printed before.
\<close>

fun PKL_scan :: "decoder \<Rightarrow> pkldir \<Rightarrow> scan \<Rightarrow> error option \<times> scan" where
  "PKL_scan decode [] s = (None, s)"
| "PKL_scan decode ((frame_dir, pk) # rest) s =
     (case pk of
        None \<Rightarrow> (Some FileNotFoundError, s)
      | Some frame_data \<Rightarrow> PKL_scan decode rest (fold (visit decode frame_dir) frame_data s))"

definition PKL_info :: "decoder \<Rightarrow> pkldir \<Rightarrow> msg list \<times> (error + report \<times> bytes)" where
  "PKL_info decode db =
     (case PKL_scan decode db scan0 of
        (Some e, s) \<Rightarrow> (out s, Inl e)
      | (None, s) \<Rightarrow> finish s)"

section \<open>FileStorage\<close>

text \<open>
  The storage path is a directory tree, listed here by relative path. \<^verbatim>\<open>put\<close> makes
  the video's subdirectory and copies each frame to \<^verbatim>\<open>{video_key}/{ith_frame:08d}.jpg\<close>;
  files copied before an error stay. \<^verbatim>\<open>info\<close> visits every path matching
  \<^verbatim>\<open>**/*.jpg\<close>; opening a directory as an image fails like any other unreadable file.
\<close>

definition mkdir_p :: "string \<Rightarrow> tree \<Rightarrow> error + tree" where
  "mkdir_p d t =
     (case map_of t d of
        None \<Rightarrow> Inr (dir_put d Dir t)
      | Some Dir \<Rightarrow> Inr t
      | Some (File b) \<Rightarrow> Inl FileExistsError)"

fun FILE_put_loop :: "string \<Rightarrow> src_dir \<Rightarrow> nat \<Rightarrow> (int \<times> string) list \<Rightarrow> tree \<Rightarrow> error option \<times> tree" where
  "FILE_put_loop video_key clip_tmp_dir ith_frame [] t = (None, t)"
| "FILE_put_loop video_key clip_tmp_dir ith_frame ((frame_id, frame_path) # rest) t =
     (case clip_tmp_dir frame_path of
        None \<Rightarrow> (Some FileNotFoundError, t)
      | Some data \<Rightarrow>
          FILE_put_loop video_key clip_tmp_dir (Suc ith_frame) rest
            (dir_put (frame_key video_key ith_frame @ ''.jpg'') (File data) t))"

definition FILE_put :: "tree \<Rightarrow> string \<Rightarrow> src_dir \<Rightarrow> (int \<times> string) list \<Rightarrow> error option \<times> tree" where
  "FILE_put t video_key clip_tmp_dir frame_files =
     (case mkdir_p video_key t of
        Inl e \<Rightarrow> (Some e, t)
      | Inr t' \<Rightarrow> FILE_put_loop video_key clip_tmp_dir 0 frame_files t')"

definition is_jpg :: "string \<Rightarrow> bool" where
  "is_jpg p = (drop (length p - 4) p = ''.jpg'')"

definition open_node :: "decoder \<Rightarrow> string \<times> node \<Rightarrow> scan \<Rightarrow> scan" where
  "open_node decode f s =
     (case snd f of
        Dir \<Rightarrow> s\<lparr>out := out s @ [ReadingFailed (fst f)]\<rparr>
      | File b \<Rightarrow> visit decode (fst f) b s)"

text \<open>What \<^verbatim>\<open>Image.open\<close> cannot open: a directory, or a file that is no image.\<close>

definition unreadable :: "decoder \<Rightarrow> string \<times> node \<Rightarrow> bool" where
  "unreadable decode f = (case snd f of Dir \<Rightarrow> True | File b \<Rightarrow> decode b = None)"

definition FILE_info :: "decoder \<Rightarrow> tree \<Rightarrow> msg list \<times> (error + report \<times> bytes)" where
  "FILE_info decode t = finish (fold (open_node decode) (filter (\<lambda>f. is_jpg (fst f)) t) scan0)"

section \<open>The closed choice of backend (\<^verbatim>\<open>STORAGE_TYPES\<close>)\<close>

datatype db_type = LMDB | HDF5 | FILE | PKL

datatype storage =
    LMDBStorage kv
  | HDF5Storage h5
  | FileStorage tree
  | PKLStorage pkldir

text \<open>The content of a backend constructed at a path where nothing exists yet.\<close>

fun new_storage :: "db_type \<Rightarrow> storage" where
  "new_storage LMDB = LMDBStorage []"
| "new_storage HDF5 = HDF5Storage []"
| "new_storage FILE = FileStorage []"
| "new_storage PKL = PKLStorage []"

fun put :: "storage \<Rightarrow> string \<Rightarrow> src_dir \<Rightarrow> (int \<times> string) list \<Rightarrow> error option \<times> storage" where
  "put (LMDBStorage db) video_key d ffs = map_prod id LMDBStorage (LMDB_put db video_key d ffs)"
| "put (HDF5Storage db) video_key d ffs = map_prod id HDF5Storage (HDF5_put db video_key d ffs)"
| "put (FileStorage db) video_key d ffs = map_prod id FileStorage (FILE_put db video_key d ffs)"
| "put (PKLStorage db) video_key d ffs = map_prod id PKLStorage (PKL_put db video_key d ffs)"

text \<open>
  \<^verbatim>\<open>close\<close> syncs and closes (LMDB), closes (HDF5) or does nothing: what is stored
  at the path afterwards is what \<^verbatim>\<open>put\<close> wrote.
\<close>

fun close :: "storage \<Rightarrow> storage" where
  "close (LMDBStorage db) = LMDBStorage db"
| "close (HDF5Storage db) = HDF5Storage db"
| "close (FileStorage db) = FileStorage db"
| "close (PKLStorage db) = PKLStorage db"

fun info :: "decoder \<Rightarrow> storage \<Rightarrow> msg list \<times> (error + report \<times> bytes)" where
  "info decode (LMDBStorage db) = LMDB_info decode db"
| "info decode (HDF5Storage db) = HDF5_info decode db"
| "info decode (FileStorage db) = FILE_info decode db"
| "info decode (PKLStorage db) = PKL_info decode db"

section \<open>Frame selection and duplicate filtering (the frame loop of \<^verbatim>\<open>vid2frame.py\<close>)\<close>

text \<open>
  The options the frame loop reads. \<^verbatim>\<open>interval\<close> and \<^verbatim>\<open>no_duplicates\<close> are Python
  floats, that is doubles; a double is held as the rational it denotes (the option
  \<^verbatim>\<open>-d 0.99\<close> gives the double nearest to 0.99). \<^verbatim>\<open>parse_args\<close> asserts \<open>args_ok\<close>;
  the main program asserts \<open>sampling_ok\<close> before its loop.
\<close>

record args =
  skip :: int
  num_frame :: int
  interval :: rat
  no_duplicates :: rat
  hash_size :: int

definition args_ok :: "args \<Rightarrow> bool" where
  "args_ok a = (0 \<le> no_duplicates a \<and> no_duplicates a < 1 \<and> 0 < hash_size a \<and> hash_size a \<le> 1024)"

definition sampling_ok :: "args \<Rightarrow> bool" where
  "sampling_ok a = (if interval a > 0 then num_frame a \<le> 0 \<and> skip a = 1 else True)"

text \<open>
  One file of the frame directory \<^verbatim>\<open>v_dir\<close>: \<open>f_id\<close> is \<^verbatim>\<open>int(f.stem)\<close>, \<open>f_name\<close> is
  \<^verbatim>\<open>f.name\<close>, \<open>f_data\<close> its content. A directory is the list of its files in the
  order \<^verbatim>\<open>v_dir.iterdir()\<close> yields them.
\<close>

record frame_file =
  f_id :: int
  f_name :: string
  f_data :: bytes

definition dir_of :: "frame_file list \<Rightarrow> src_dir" where
  "dir_of fs = map_of (map (\<lambda>f. (f_name f, f_data f)) fs)"

text \<open>The pair \<^verbatim>\<open>(fid, f.name)\<close> the loop appends for a retained file.\<close>

definition pairs :: "frame_file list \<Rightarrow> (int \<times> string) list" where
  "pairs fs = map (\<lambda>f. (f_id f, f_name f)) fs"

subsection \<open>Double-precision arithmetic\<close>

text \<open>
  Python's \<^verbatim>\<open>float\<close> and NumPy's \<^verbatim>\<open>float64\<close> are IEEE 754 doubles: numbers with a
  significand of 53 bits, and every conversion and operation returns the exact result
  rounded to the nearest such number, a tie going to the even significand. \<open>fl64\<close> is
  that rounding, on the rationals: \<open>ilog2 x\<close> is the position of the leading bit of a
  positive \<open>x\<close>, so that \<open>x / 2 ^ (ilog2 x - 52)\<close> lies from \<open>2 ^ 52\<close> up to
  \<open>2 ^ 53\<close> and is rounded to an integer. The exponent is not bounded: no value
  computed below is large or small enough to leave the normal range. Python's
  \<^verbatim>\<open>round\<close> of a double is the nearest integer, a half going to the even neighbour.
  \<open>int32\<close> is the cast of an integer to 32 bits; it is the identity on the 32-bit
  range, the only place where the results below use it (outside, the cast of a double
  is left to the platform by C, and the two's-complement wrap stands for it).
\<close>

definition py_round :: "rat \<Rightarrow> int" where
  "py_round x =
     (let f = \<lfloor>x\<rfloor>; d = x - of_int f
      in if d < 1 / 2 then f
         else if 1 / 2 < d then f + 1
         else if even f then f else f + 1)"

definition ilog2 :: "rat \<Rightarrow> int" where
  "ilog2 x =
     (let (p, q) = quotient_of x; k = bitlen p - bitlen q
      in if 2 powi k \<le> x then k else k - 1)"

definition fl64 :: "rat \<Rightarrow> rat" where
  "fl64 x =
     (if x = 0 then 0
      else let e = ilog2 \<bar>x\<bar> - 52
           in sgn x * of_int (py_round (\<bar>x\<bar> / 2 powi e)) * 2 powi e)"

definition int32 :: "int \<Rightarrow> int" where
  "int32 v = (v + 2 ^ 31) mod 2 ^ 32 - 2 ^ 31"

subsection \<open>Uniform sampling\<close>

text \<open>
  \<^verbatim>\<open>np.linspace(start, stop, num, endpoint=True, dtype=np.int32)\<close> of the NumPy library,
  as its source computes it, in doubles: \<open>start\<close> and \<open>stop\<close> are converted,
  \<open>delta = stop - start\<close>, \<open>div = num - 1\<close>, \<open>step = delta / div\<close>, and point \<open>i\<close> is
  \<open>i * step + start\<close> (\<open>(i / div) * delta + start\<close> when the step is 0, and
  \<open>i * delta + start\<close> when \<open>div\<close> is 0); the last point is set to \<open>stop\<close> when
  \<open>num > 1\<close>; then every point is rounded down (\<^verbatim>\<open>floor\<close>) and cast to \<^verbatim>\<open>int32\<close>.
  (NumPy before 1.20 leaves the rounding to the cast, which truncates: the same for
  points that are not negative, as those of frame ids are.)
\<close>

definition linspace :: "int \<Rightarrow> int \<Rightarrow> nat \<Rightarrow> int list" where
  "linspace start stop num =
     (let dv = num - 1;
          start' = fl64 (of_int start);
          stop' = fl64 (of_int stop);
          delta = fl64 (stop' - start')
      in map (\<lambda>i. let y0 = fl64 (of_nat i);
                       y1 = (if 0 < dv
                             then (let step = fl64 (delta / fl64 (of_nat dv))
                                   in if step = 0 then fl64 (fl64 (y0 / fl64 (of_nat dv)) * delta)
                                      else fl64 (y0 * step))
                             else fl64 (y0 * delta));
                       y2 = fl64 (y1 + start');
                       y3 = (if 1 < num \<and> i = dv then stop' else y2)
                   in int32 \<lfloor>y3\<rfloor>) [0..<num])"

text \<open>
  \<^verbatim>\<open>sample_ids = set(list(np.linspace(min(ids), max(ids), args.num_frame, ...)))\<close>;
  \<^verbatim>\<open>min\<close> of an empty list raises \<^verbatim>\<open>ValueError\<close>. Without sampling the variable is
  not used.
\<close>

definition sample_ids :: "args \<Rightarrow> int list \<Rightarrow> error + int list" where
  "sample_ids a ids =
     (if num_frame a > 0
      then (if ids = [] then Inl ValueError
            else Inr (linspace (Min (set ids)) (Max (set ids)) (nat (num_frame a))))
      else Inr [])"

text \<open>The two \<^verbatim>\<open>continue\<close> conditions at the head of the frame loop.\<close>

definition skipped :: "args \<Rightarrow> int list \<Rightarrow> int \<Rightarrow> bool" where
  "skipped a sids fid =
     (if num_frame a > 0 then fid \<notin> set sids
      else if skip a > 1 then (fid - 1) mod skip a \<noteq> 0
      else False)"

subsection \<open>Duplicate detection\<close>

text \<open>
  A fingerprint is the bit array of an \<^verbatim>\<open>imagehash.ImageHash\<close>; the difference of two
  fingerprints counts the positions where they differ. \<open>hash_algorithm\<close> stands for
  \<^verbatim>\<open>Image.open\<close> followed by the chosen function of the \<^verbatim>\<open>imagehash\<close> library.
  The limit is \<^verbatim>\<open>round(similarity_threshold * (args.hash_size**2))\<close> with
  \<^verbatim>\<open>similarity_threshold = 1. - args.no_duplicates\<close>: a subtraction and a product of
  doubles, then Python's \<^verbatim>\<open>round\<close>.
\<close>

type_synonym hash = "bool list"

definition hamming :: "hash \<Rightarrow> hash \<Rightarrow> int" where
  "hamming hash1 hash2 = int (length (filter (\<lambda>(x, y). x \<noteq> y) (zip hash1 hash2)))"

definition diff_limit :: "args \<Rightarrow> int" where
  "diff_limit a =
     (let similarity_threshold = fl64 (1 - no_duplicates a)
      in py_round (fl64 (similarity_threshold * fl64 (of_int ((hash_size a)\<^sup>2)))))"

fun any_within :: "int \<Rightarrow> hash \<Rightarrow> hash list \<Rightarrow> bool" where
  "any_within limit hash1 [] = False"
| "any_within limit hash1 (hash2 # rest) =
     (if hamming hash1 hash2 \<le> limit then True else any_within limit hash1 rest)"

definition detect_duplicate :: "(bytes \<Rightarrow> int \<Rightarrow> hash) \<Rightarrow> args \<Rightarrow> hash list \<Rightarrow> bytes \<Rightarrow> bool \<times> hash list" where
  "detect_duplicate hash_algorithm a hashes f =
     (let hash1 = hash_algorithm f (hash_size a)
      in if any_within (diff_limit a) hash1 hashes then (True, hashes)
         else (False, hashes @ [hash1]))"

subsection \<open>The frame loop\<close>

record loop_state =
  hashes :: "hash list"
  total_files :: nat
  duplicates :: nat
  frame_files :: "(int \<times> string) list"

definition loop0 :: loop_state where
  "loop0 = \<lparr>hashes = [], total_files = 0, duplicates = 0, frame_files = []\<rparr>"

fun frame_loop :: "(bytes \<Rightarrow> int \<Rightarrow> hash) \<Rightarrow> args \<Rightarrow> int list \<Rightarrow> frame_file list \<Rightarrow> loop_state \<Rightarrow> loop_state" where
  "frame_loop hash_algorithm a sids [] s = s"
| "frame_loop hash_algorithm a sids (f # rest) s =
     (if skipped a sids (f_id f) then frame_loop hash_algorithm a sids rest s
      else
        let s1 = s\<lparr>total_files := total_files s + 1\<rparr> in
        if no_duplicates a > 0 then
          (case detect_duplicate hash_algorithm a (hashes s1) (f_data f) of
             (True, hs) \<Rightarrow>
               frame_loop hash_algorithm a sids rest (s1\<lparr>hashes := hs, duplicates := duplicates s1 + 1\<rparr>)
           | (False, hs) \<Rightarrow>
               frame_loop hash_algorithm a sids rest
                 (s1\<lparr>hashes := hs, frame_files := frame_files s1 @ [(f_id f, f_name f)]\<rparr>))
        else
          frame_loop hash_algorithm a sids rest
            (s1\<lparr>frame_files := frame_files s1 @ [(f_id f, f_name f)]\<rparr>))"

text \<open>
  The frames of one video as handed to \<^verbatim>\<open>put\<close>: the loop over the directory, then
  \<^verbatim>\<open>frame_files.sort()\<close>, which orders the pairs by frame id, then by name.
\<close>

definition select_frames :: "(bytes \<Rightarrow> int \<Rightarrow> hash) \<Rightarrow> args \<Rightarrow> frame_file list \<Rightarrow> error + loop_state" where
  "select_frames hash_algorithm a v_dir =
     (case sample_ids a (map f_id v_dir) of
        Inl e \<Rightarrow> Inl e
      | Inr sids \<Rightarrow>
          (let s = frame_loop hash_algorithm a sids v_dir loop0
           in Inr (s\<lparr>frame_files := sort (frame_files s)\<rparr>)))"

subsection \<open>The uniform selection as the specification words it\<close>

text \<open>
  For comparison with \<open>linspace\<close>: the same points, each rounded to the nearest
  integer.
\<close>

definition spec_uniform_ids :: "int \<Rightarrow> int \<Rightarrow> nat \<Rightarrow> int list" where
  "spec_uniform_ids lo hi n =
     map (\<lambda>i. if n = 1 then lo
               else py_round (of_int lo + of_nat i * (of_int hi - of_int lo) / of_nat (n - 1)))
       [0..<n]"

subsection \<open>The Duplicate Filter as the specification words it\<close>

text \<open>
  For comparison with the frame loop: one forward pass over a list of candidates in
  the order given, keeping the fingerprints accepted so far; a candidate whose
  fingerprint is within \<open>limit\<close> of any accepted one is dropped and its fingerprint
  is not added, any other candidate is kept and its fingerprint appended. The result
  is the kept candidates and the accepted fingerprints.
\<close>

fun spec_dedup :: "int \<Rightarrow> (bytes \<Rightarrow> hash) \<Rightarrow> hash list \<Rightarrow> frame_file list \<Rightarrow> frame_file list \<times> hash list" where
  "spec_dedup limit fingerprint accepted [] = ([], accepted)"
| "spec_dedup limit fingerprint accepted (f # rest) =
     (let h = fingerprint (f_data f)
      in if \<exists>h'\<in>set accepted. hamming h h' \<le> limit
         then spec_dedup limit fingerprint accepted rest
         else (case spec_dedup limit fingerprint (accepted @ [h]) rest of
                 (kept, hs) \<Rightarrow> (f # kept, hs)))"

section \<open>The loop over the videos\<close>

text \<open>
  The videos of a directory: a file, given here by stem and suffix, is taken when its
  suffix is a video format and no file of the same stem was taken before.
\<close>

definition VIDEO_FORMATS :: "string list" where
  "VIDEO_FORMATS = [''.mp4'', ''.avi'', ''.flv'', ''.mkv'', ''.webm'', ''.mov'']"

fun scan_dir :: "(string \<times> string) list \<Rightarrow> (string \<times> string) list \<Rightarrow> string set \<Rightarrow> (string \<times> string) list" where
  "scan_dir [] all_videos unique_vids = all_videos"
| "scan_dir (f # rest) all_videos unique_vids =
     (if snd f \<in> set VIDEO_FORMATS \<and> fst f \<notin> unique_vids
      then scan_dir rest (all_videos @ [f]) (insert (fst f) unique_vids)
      else scan_dir rest all_videos unique_vids)"

text \<open>
  A video as the loop sees it: its key \<^verbatim>\<open>vid.stem\<close>, the frame rate \<^verbatim>\<open>get_frame_rate\<close>
  reports for it, and the frame directory the decoder leaves for it. The run's state is
  the backend, the set \<^verbatim>\<open>done_videos\<close>, and the trace of what the run did that can be
  observed from outside: the lines it printed and the calls of \<^verbatim>\<open>frame_db.put\<close>.
\<close>

record video =
  stem :: string
  r_frame_rate :: rat
  decoded :: "frame_file list"

datatype event = Print msg | PutCall string "(int \<times> string) list"

record run =
  frame_db :: storage
  done_videos :: "string set"
  events :: "event list"

definition emit :: "event \<Rightarrow> run \<Rightarrow> run" where
  "emit e r = r\<lparr>events := events r @ [e]\<rparr>"

definition process_video :: "(bytes \<Rightarrow> int \<Rightarrow> hash) \<Rightarrow> args \<Rightarrow> video \<Rightarrow> run \<Rightarrow> error option \<times> run" where
  "process_video hash_algorithm a vid r =
     (let video_key = stem vid;
          r1 = (if video_key \<in> done_videos r then emit (Print (SeenBefore video_key)) r else r)
      in if interval a > 0 \<and> r_frame_rate vid = 0
         then (None, emit (Print (FrameRateZero video_key)) r1)
         else
           (case select_frames hash_algorithm a (decoded vid) of
              Inl e \<Rightarrow> (Some e, r1)
            | Inr s \<Rightarrow>
                (case put (frame_db r1) video_key (dir_of (decoded vid)) (frame_files s) of
                   (Some e, db) \<Rightarrow>
                     (Some e, emit (PutCall video_key (frame_files s)) (r1\<lparr>frame_db := db\<rparr>))
                 | (None, db) \<Rightarrow>
                     (let r2 = emit (PutCall video_key (frame_files s)) (r1\<lparr>frame_db := db\<rparr>);
                          r3 = r2\<lparr>done_videos := insert video_key (done_videos r2)\<rparr>
                      in if no_duplicates a > 0
                         then (if total_files s = 0 then (Some ZeroDivisionError, r3)
                               else (None, emit (Print (DuplicatesRemoved video_key (duplicates s) (total_files s))) r3))
                         else (None, r3)))))"

fun process_videos :: "(bytes \<Rightarrow> int \<Rightarrow> hash) \<Rightarrow> args \<Rightarrow> video list \<Rightarrow> run \<Rightarrow> error option \<times> run" where
  "process_videos hash_algorithm a [] r = (None, r)"
| "process_videos hash_algorithm a (vid # rest) r =
     (case process_video hash_algorithm a vid r of
        (Some e, r') \<Rightarrow> (Some e, r')
      | (None, r') \<Rightarrow> process_videos hash_algorithm a rest r')"




section \<open>Results on the storage backends\<close>

subsection \<open>Keys and the two keyed backends\<close>

declare decimal.simps [simp del]

lemma decimal_val_snoc: "decimal_val (s @ [c]) = 10 * decimal_val s + digit_val c"
  by (simp add: decimal_val_def)

lemma digit_val_digit_char: "d < 10 \<Longrightarrow> digit_val (digit_char d) = d"
  by (simp add: digit_val_def digit_char_def)

lemma decimal_val_decimal: "decimal_val (decimal n) = n"
proof (induction n rule: decimal.induct)
  case (1 n)
  show ?case
  proof (cases "n < 10")
    case True
    then show ?thesis
      by (subst decimal.simps) (simp add: decimal_val_def digit_val_digit_char)
  next
    case False
    with 1 have "decimal_val (decimal (n div 10)) = n div 10" by simp
    with False show ?thesis
      by (subst decimal.simps) (simp add: decimal_val_snoc digit_val_digit_char)
  qed
qed

lemma decimal_val_zeros: "decimal_val (replicate k (CHR ''0'') @ s) = decimal_val s"
proof -
  have "foldl (\<lambda>a c. 10 * a + digit_val c) 0 (replicate k (CHR ''0'')) = 0"
    by (induction k) (simp_all add: digit_val_def)
  then show ?thesis by (simp add: decimal_val_def)
qed

lemma decimal_val_fmt08d: "decimal_val (fmt08d n) = n"
  by (simp add: fmt08d_def decimal_val_zeros decimal_val_decimal)

lemma fmt08d_inj: "fmt08d i = fmt08d j \<Longrightarrow> i = j"
  by (metis decimal_val_fmt08d)

lemma frame_key_inj: "frame_key vk i = frame_key vk j \<Longrightarrow> i = j"
  by (simp add: frame_key_def fmt08d_inj)


lemma map_of_ord_put: "map_of (ord_put k v ps) = (map_of ps)(k \<mapsto> v)"
  by (induction ps) auto

lemma LMDB_put_loop_other:
  "LMDB_put_loop vk d i ffs txn = Inr txn' \<Longrightarrow> k \<notin> frame_key vk ` {i..<i + length ffs}
   \<Longrightarrow> map_of txn' k = map_of txn k"
proof (induction ffs arbitrary: i txn)
  case Nil
  then show ?case by simp
next
  case (Cons f rest)
  obtain fid p where f: "f = (fid, p)" by (cases f)
  from Cons.prems(1) f obtain data where data: "d p = Some data"
    and rec: "LMDB_put_loop vk d (Suc i) rest (ord_put (frame_key vk i) data txn) = Inr txn'"
    by (auto split: option.splits)
  from Cons.prems(2) have k: "k \<noteq> frame_key vk i" and "k \<notin> frame_key vk ` {Suc i..<Suc i + length rest}"
    by auto
  with Cons.IH [OF rec] have "map_of txn' k = map_of (ord_put (frame_key vk i) data txn) k"
    by simp
  with k show ?case by (simp add: map_of_ord_put)
qed

lemma LMDB_put_loop_written:
  "LMDB_put_loop vk d i ffs txn = Inr txn' \<Longrightarrow> j < length ffs
   \<Longrightarrow> \<exists>data. d (snd (ffs ! j)) = Some data \<and> map_of txn' (frame_key vk (i + j)) = Some data"
proof (induction ffs arbitrary: i j txn)
  case Nil
  then show ?case by simp
next
  case (Cons f rest)
  obtain fid p where f: "f = (fid, p)" by (cases f)
  from Cons.prems(1) f obtain data where data: "d p = Some data"
    and rec: "LMDB_put_loop vk d (Suc i) rest (ord_put (frame_key vk i) data txn) = Inr txn'"
    by (auto split: option.splits)
  show ?case
  proof (cases j)
    case 0
    have "frame_key vk i \<notin> frame_key vk ` {Suc i..<Suc i + length rest}"
      by (auto dest: frame_key_inj)
    from LMDB_put_loop_other [OF rec this]
    have "map_of txn' (frame_key vk i) = Some data" by (simp add: map_of_ord_put)
    with 0 f data show ?thesis by simp
  next
    case (Suc j')
    with Cons.prems(2) have "j' < length rest" by simp
    from Cons.IH [OF rec this] Suc show ?thesis by simp
  qed
qed

lemma LMDB_put_loop_fails:
  "\<exists>f\<in>set ffs. d (snd f) = None \<Longrightarrow> LMDB_put_loop vk d i ffs txn = Inl FileNotFoundError"
  by (induction ffs arbitrary: i txn) (fastforce split: option.splits)+

lemma LMDB_put_loop_succeeds:
  "\<forall>f\<in>set ffs. d (snd f) \<noteq> None \<Longrightarrow> \<exists>txn'. LMDB_put_loop vk d i ffs txn = Inr txn'"
  by (induction ffs arbitrary: i txn) (auto split: option.splits)

lemma h5_split_frame_key:
  "CHR ''/'' \<notin> set vk \<Longrightarrow> h5_split (frame_key vk i) = (vk, fmt08d i)"
  by (induction vk) (auto simp add: h5_split_def frame_key_def)

lemma h5_member_create:
  "h5_create key data db = Inr db' \<Longrightarrow> h5_split key = (g, m)
   \<Longrightarrow> h5_member db' g' m' = (if g' = g \<and> m' = m then Some data else h5_member db g' m')"
  by (auto simp add: h5_create_def h5_member_def map_of_ord_put split: option.splits if_splits)

lemma HDF5_put_loop_other:
  "HDF5_put_loop vk d i ffs db = (None, db') \<Longrightarrow> CHR ''/'' \<notin> set vk
   \<Longrightarrow> (g, m) \<notin> (\<lambda>i. (vk, fmt08d i)) ` {i..<i + length ffs}
   \<Longrightarrow> h5_member db' g m = h5_member db g m"
proof (induction ffs arbitrary: i db)
  case Nil
  then show ?case by simp
next
  case (Cons f rest)
  obtain fid p where f: "f = (fid, p)" by (cases f)
  from Cons.prems(1) f obtain data db1 where data: "d p = Some data"
    and cr: "h5_create (frame_key vk i) data db = Inr db1"
    and rec: "HDF5_put_loop vk d (Suc i) rest db1 = (None, db')"
    by (auto split: option.splits sum.splits)
  from Cons.prems(3) have k: "(g, m) \<noteq> (vk, fmt08d i)"
    and "(g, m) \<notin> (\<lambda>i. (vk, fmt08d i)) ` {Suc i..<Suc i + length rest}"
    by auto
  with Cons.IH [OF rec Cons.prems(2)] have "h5_member db' g m = h5_member db1 g m"
    by simp
  with k h5_member_create [OF cr h5_split_frame_key [OF Cons.prems(2)]]
  show ?case by auto
qed

lemma HDF5_put_loop_written:
  "HDF5_put_loop vk d i ffs db = (None, db') \<Longrightarrow> CHR ''/'' \<notin> set vk \<Longrightarrow> j < length ffs
   \<Longrightarrow> \<exists>data. d (snd (ffs ! j)) = Some data \<and> h5_member db' vk (fmt08d (i + j)) = Some data"
proof (induction ffs arbitrary: i j db)
  case Nil
  then show ?case by simp
next
  case (Cons f rest)
  obtain fid p where f: "f = (fid, p)" by (cases f)
  from Cons.prems(1) f obtain data db1 where data: "d p = Some data"
    and cr: "h5_create (frame_key vk i) data db = Inr db1"
    and rec: "HDF5_put_loop vk d (Suc i) rest db1 = (None, db')"
    by (auto split: option.splits sum.splits)
  show ?case
  proof (cases j)
    case 0
    have "(vk, fmt08d i) \<notin> (\<lambda>i. (vk, fmt08d i)) ` {Suc i..<Suc i + length rest}"
      by (auto dest: fmt08d_inj)
    from HDF5_put_loop_other [OF rec Cons.prems(2) this]
      h5_member_create [OF cr h5_split_frame_key [OF Cons.prems(2)]]
    have "h5_member db' vk (fmt08d i) = Some data" by simp
    with 0 f data show ?thesis by simp
  next
    case (Suc j')
    with Cons.prems(3) have "j' < length rest" by simp
    from Cons.IH [OF rec Cons.prems(2) this] Suc show ?thesis by simp
  qed
qed

text \<open>
  C3 (frame keys). A successful \<^verbatim>\<open>put\<close> of the LMDB and of the HDF5 backend stores
  the \<open>i\<close>-th entry of the frame list (counted from 0) under the key
  \<open>frame_key video_key i\<close>, that is \<^verbatim>\<open>{video_key}/{i:08d}\<close>; every other key keeps
  the value it had, so the indices assigned are exactly \<open>0, \<dots>, N - 1\<close> in list order;
  and the key determines the index (no two indices share a key). For HDF5 the video
  key holds no slash, as a file stem never does.
\<close>

theorem C3_frame_keys:
  "(LMDB_put db vk d ffs = (None, db') \<longrightarrow>
      (\<forall>i<length ffs. \<exists>data. d (snd (ffs ! i)) = Some data \<and> map_of db' (frame_key vk i) = Some data)
      \<and> (\<forall>k. k \<notin> frame_key vk ` {0..<length ffs} \<longrightarrow> map_of db' k = map_of db k))
   \<and> (HDF5_put h vk d ffs = (None, h') \<and> CHR ''/'' \<notin> set vk \<longrightarrow>
      (\<forall>i<length ffs. \<exists>data. d (snd (ffs ! i)) = Some data \<and> h5_get h' (frame_key vk i) = Some data)
      \<and> (\<forall>g m. (g, m) \<notin> (\<lambda>i. (vk, fmt08d i)) ` {0..<length ffs} \<longrightarrow> h5_member h' g m = h5_member h g m))
   \<and> (\<forall>i j. frame_key vk i = frame_key vk j \<longrightarrow> i = j)"
proof (intro conjI impI allI)
  fix i
  assume ok: "LMDB_put db vk d ffs = (None, db')" and i: "i < length ffs"
  from ok have "LMDB_put_loop vk d 0 ffs db = Inr db'"
    by (simp add: LMDB_put_def split: sum.splits)
  from LMDB_put_loop_written [OF this i]
  show "\<exists>data. d (snd (ffs ! i)) = Some data \<and> map_of db' (frame_key vk i) = Some data"
    by simp
next
  fix k
  assume ok: "LMDB_put db vk d ffs = (None, db')" and k: "k \<notin> frame_key vk ` {0..<length ffs}"
  from ok have "LMDB_put_loop vk d 0 ffs db = Inr db'"
    by (simp add: LMDB_put_def split: sum.splits)
  from LMDB_put_loop_other [OF this] k show "map_of db' k = map_of db k"
    by simp
next
  fix i
  assume ok: "HDF5_put h vk d ffs = (None, h') \<and> CHR ''/'' \<notin> set vk" and i: "i < length ffs"
  then have loop: "HDF5_put_loop vk d 0 ffs h = (None, h')" and vk: "CHR ''/'' \<notin> set vk"
    by (simp_all add: HDF5_put_def)
  from HDF5_put_loop_written [OF loop vk i]
  show "\<exists>data. d (snd (ffs ! i)) = Some data \<and> h5_get h' (frame_key vk i) = Some data"
    by (simp add: h5_get_def h5_split_frame_key [OF vk])
next
  fix g m
  assume ok: "HDF5_put h vk d ffs = (None, h') \<and> CHR ''/'' \<notin> set vk"
    and k: "(g, m) \<notin> (\<lambda>i. (vk, fmt08d i)) ` {0..<length ffs}"
  then have loop: "HDF5_put_loop vk d 0 ffs h = (None, h')" and vk: "CHR ''/'' \<notin> set vk"
    by (simp_all add: HDF5_put_def)
  from HDF5_put_loop_other [OF loop vk] k show "h5_member h' g m = h5_member h g m"
    by simp
next
  fix i j
  assume "frame_key vk i = frame_key vk j"
  then show "i = j" by (rule frame_key_inj)
qed

theorem C3_frame_keys_witness:
  "LMDB_put [] ''clip'' [''1.jpg'' \<mapsto> ''A'', ''2.jpg'' \<mapsto> ''B''] [(1, ''1.jpg''), (2, ''2.jpg'')]
     = (None, [(''clip/00000000'', ''A''), (''clip/00000001'', ''B'')])
   \<and> map_of [(''clip/00000000'', ''A''), (''clip/00000001'', ''B'')] (frame_key ''clip'' 1) = Some ''B''
   \<and> HDF5_put [] ''clip'' [''1.jpg'' \<mapsto> ''A'', ''2.jpg'' \<mapsto> ''B''] [(1, ''1.jpg''), (2, ''2.jpg'')]
     = (None, [(''clip'', [(''00000000'', ''A''), (''00000001'', ''B'')])])
   \<and> h5_get [(''clip'', [(''00000000'', ''A''), (''00000001'', ''B'')])] (frame_key ''clip'' 1) = Some ''B''
   \<and> frame_key ''clip'' 0 \<noteq> frame_key ''clip'' 1"
proof -
  let ?d = "[''1.jpg'' \<mapsto> ''A'', ''2.jpg'' \<mapsto> ''B'']"
  let ?ffs = "[(1::int, ''1.jpg''), (2, ''2.jpg'')]"
  have l: "LMDB_put [] ''clip'' ?d ?ffs = (None, [(''clip/00000000'', ''A''), (''clip/00000001'', ''B'')])"
    by code_simp
  have h: "HDF5_put [] ''clip'' ?d ?ffs = (None, [(''clip'', [(''00000000'', ''A''), (''00000001'', ''B'')])])"
    by code_simp
  have s: "CHR ''/'' \<notin> set ''clip''" by simp
  note t = C3_frame_keys [of "[]" "''clip''" ?d ?ffs "[(''clip/00000000'', ''A''), (''clip/00000001'', ''B'')]"
      "[]" "[(''clip'', [(''00000000'', ''A''), (''00000001'', ''B'')])]"]
  have i: "(1::nat) < length ?ffs" by simp
  have d: "?d (snd (?ffs ! 1)) = Some ''B''" by simp
  from t l have "\<forall>i<length ?ffs. \<exists>data. ?d (snd (?ffs ! i)) = Some data
      \<and> map_of [(''clip/00000000'', ''A''), (''clip/00000001'', ''B'')] (frame_key ''clip'' i) = Some data"
    by blast
  with i d have 1: "map_of [(''clip/00000000'', ''A''), (''clip/00000001'', ''B'')] (frame_key ''clip'' 1) = Some ''B''"
    by (metis option.inject)
  from t h s have "\<forall>i<length ?ffs. \<exists>data. ?d (snd (?ffs ! i)) = Some data
      \<and> h5_get [(''clip'', [(''00000000'', ''A''), (''00000001'', ''B'')])] (frame_key ''clip'' i) = Some data"
    by blast
  with i d have 2: "h5_get [(''clip'', [(''00000000'', ''A''), (''00000001'', ''B'')])] (frame_key ''clip'' 1) = Some ''B''"
    by (metis option.inject)
  from t have "frame_key ''clip'' 0 = frame_key ''clip'' 1 \<longrightarrow> (0::nat) = 1" by blast
  then have 3: "frame_key ''clip'' 0 \<noteq> frame_key ''clip'' 1" by simp
  from l h 1 2 3 show ?thesis by blast
qed

text \<open>
  C7 (LMDB all-or-nothing). If the source file of any entry cannot be read, the
  LMDB \<^verbatim>\<open>put\<close> ends with \<open>FileNotFoundError\<close> and the database is exactly what it
  was before the call: no frame of this video is committed, and what earlier videos
  committed stays. If every source file can be read, \<^verbatim>\<open>put\<close> succeeds and every
  entry is stored under its key.
\<close>

theorem C7_lmdb_put_all_or_nothing:
  "((\<exists>f\<in>set ffs. d (snd f) = None) \<longrightarrow> LMDB_put db vk d ffs = (Some FileNotFoundError, db))
   \<and> ((\<forall>f\<in>set ffs. d (snd f) \<noteq> None) \<longrightarrow>
        fst (LMDB_put db vk d ffs) = None
        \<and> (\<forall>i<length ffs. map_of (snd (LMDB_put db vk d ffs)) (frame_key vk i) = d (snd (ffs ! i))))"
proof (intro conjI impI)
  assume "\<exists>f\<in>set ffs. d (snd f) = None"
  then show "LMDB_put db vk d ffs = (Some FileNotFoundError, db)"
    by (simp add: LMDB_put_def LMDB_put_loop_fails)
next
  assume "\<forall>f\<in>set ffs. d (snd f) \<noteq> None"
  from LMDB_put_loop_succeeds [OF this]
  obtain txn where txn: "LMDB_put_loop vk d 0 ffs db = Inr txn" by blast
  then show "fst (LMDB_put db vk d ffs) = None" by (simp add: LMDB_put_def)
  show "\<forall>i<length ffs. map_of (snd (LMDB_put db vk d ffs)) (frame_key vk i) = d (snd (ffs ! i))"
  proof (intro allI impI)
    fix i assume "i < length ffs"
    from LMDB_put_loop_written [OF txn this] txn
    show "map_of (snd (LMDB_put db vk d ffs)) (frame_key vk i) = d (snd (ffs ! i))"
      by (auto simp add: LMDB_put_def)
  qed
qed

theorem C7_lmdb_put_all_or_nothing_witness:
  "LMDB_put [(''a/00000000'', ''X'')] ''b'' [''1.jpg'' \<mapsto> ''A''] [(1, ''1.jpg''), (2, ''2.jpg'')]
     = (Some FileNotFoundError, [(''a/00000000'', ''X'')])
   \<and> LMDB_put [(''a/00000000'', ''X'')] ''b'' [''1.jpg'' \<mapsto> ''A'', ''2.jpg'' \<mapsto> ''B''] [(1, ''1.jpg''), (2, ''2.jpg'')]
     = (None, [(''a/00000000'', ''X''), (''b/00000000'', ''A''), (''b/00000001'', ''B'')])"
proof -
  have "\<exists>f\<in>set [(1::int, ''1.jpg''), (2, ''2.jpg'')]. [''1.jpg'' \<mapsto> ''A''] (snd f) = None"
    by simp
  with C7_lmdb_put_all_or_nothing [of "[(1, ''1.jpg''), (2, ''2.jpg'')]" "[''1.jpg'' \<mapsto> ''A'']"
      "[(''a/00000000'', ''X'')]" "''b''"]
  have 1: "LMDB_put [(''a/00000000'', ''X'')] ''b'' [''1.jpg'' \<mapsto> ''A''] [(1, ''1.jpg''), (2, ''2.jpg'')]
     = (Some FileNotFoundError, [(''a/00000000'', ''X'')])"
    by blast
  have 2: "LMDB_put [(''a/00000000'', ''X'')] ''b'' [''1.jpg'' \<mapsto> ''A'', ''2.jpg'' \<mapsto> ''B''] [(1, ''1.jpg''), (2, ''2.jpg'')]
     = (None, [(''a/00000000'', ''X''), (''b/00000000'', ''A''), (''b/00000001'', ''B'')])"
    by code_simp
  from 1 2 show ?thesis by simp
qed


subsection \<open>The round trip through \<^verbatim>\<open>put\<close>, \<^verbatim>\<open>close\<close> and \<^verbatim>\<open>info\<close>\<close>

text \<open>What a scan counts.\<close>

lemma total_assign:
  "total (assign k c rep) + (case map_of rep k of None \<Rightarrow> 0 | Some c' \<Rightarrow> c') = total rep + c"
  by (induction rep) (auto simp add: total_def)

lemma total_tally: "total (tally rep k) = Suc (total rep)"
  using total_assign [of k "(case map_of rep k of None \<Rightarrow> 0 | Some c \<Rightarrow> c) + 1" rep]
  by (simp add: tally_def)

lemma visit_total:
  "total (info_d (visit decode k v s)) = total (info_d s) + (if decode v = None then 0 else 1)"
  by (cases "decode v") (simp_all add: visit_def total_tally)

lemma visit_img:
  "img (visit decode k v s) = None \<longleftrightarrow> img s = None \<and> decode v = None"
  by (cases "decode v") (simp_all add: visit_def)

lemma fold_steps_total:
  assumes "\<And>x s. x \<in> set xs \<Longrightarrow> total (info_d (f x s)) = total (info_d s) + (if bad x then 0 else 1)"
  shows "total (info_d (fold f xs s)) = total (info_d s) + length (filter (\<lambda>x. \<not> bad x) xs)"
  using assms by (induction xs arbitrary: s) simp_all

lemma fold_steps_img:
  assumes "\<And>x s. x \<in> set xs \<Longrightarrow> img (f x s) = None \<longleftrightarrow> img s = None \<and> bad x"
  shows "img (fold f xs s) = None \<longleftrightarrow> img s = None \<and> filter (\<lambda>x. \<not> bad x) xs = []"
  using assms by (induction xs arbitrary: s) simp_all

lemma finish_total:
  assumes "img s \<noteq> None"
  shows "\<exists>rep im. finish s = (out s, Inr (rep, im)) \<and> total rep = total (info_d s)"
  using assms by (auto simp add: finish_def)


text \<open>LMDB after a put.\<close>

lemma ord_put_fresh_length: "k \<notin> fst ` set t \<Longrightarrow> length (ord_put k v t) = Suc (length t)"
  by (induction t) auto

lemma ord_put_set: "set (ord_put k v t) \<subseteq> insert (k, v) (set t)"
  by (induction t) (auto split: if_splits)

lemma ord_put_keys: "fst ` set (ord_put k v t) = insert k (fst ` set t)"
proof (induction t)
  case Nil
  show ?case by simp
next
  case (Cons x t)
  obtain k' v' where x: "x = (k', v')" by (cases x)
  show ?case
  proof (cases "k = k'")
    case True
    with x show ?thesis by simp
  next
    case False
    show ?thesis
    proof (cases "k < k'")
      case True
      with False x show ?thesis by simp
    next
      case lt: False
      with False x Cons.IH show ?thesis by (simp add: insert_commute)
    qed
  qed
qed

lemma ord_put_vals: "snd ` set (ord_put k v t) \<subseteq> insert v (snd ` set t)"
proof -
  have "snd ` set (ord_put k v t) \<subseteq> snd ` insert (k, v) (set t)"
    by (rule image_mono) (rule ord_put_set)
  then show ?thesis by simp
qed

lemma LMDB_put_loop_content:
  "LMDB_put_loop vk d i ffs txn = Inr txn' \<Longrightarrow> fst ` set txn \<subseteq> frame_key vk ` {..<i}
   \<Longrightarrow> length txn' = length txn + length ffs
       \<and> snd ` set txn' \<subseteq> snd ` set txn \<union> {data. \<exists>f\<in>set ffs. d (snd f) = Some data}"
proof (induction ffs arbitrary: i txn)
  case Nil
  then show ?case by simp
next
  case (Cons f rest)
  obtain fid p where f: "f = (fid, p)" by (cases f)
  let ?txn1 = "ord_put (frame_key vk i) data txn"
  from Cons.prems(1) f obtain data where data: "d p = Some data"
    and rec: "LMDB_put_loop vk d (Suc i) rest (ord_put (frame_key vk i) data txn) = Inr txn'"
    by (auto split: option.splits)
  from Cons.prems(2) have fresh: "frame_key vk i \<notin> fst ` set txn"
    by (auto dest: frame_key_inj)
  from Cons.prems(2) have "fst ` set (ord_put (frame_key vk i) data txn) \<subseteq> frame_key vk ` {..<Suc i}"
    by (auto simp add: ord_put_keys lessThan_Suc)
  from Cons.IH [OF rec this] ord_put_fresh_length [OF fresh, of data]
  have len: "length txn' = length txn + length (f # rest)"
    and sub: "snd ` set txn' \<subseteq> snd ` set (ord_put (frame_key vk i) data txn)
                \<union> {data. \<exists>f\<in>set rest. d (snd f) = Some data}"
    by simp_all
  have "data \<in> {data. \<exists>f\<in>set (f # rest). d (snd f) = Some data}"
    using f data by simp
  moreover have "{data. \<exists>f\<in>set rest. d (snd f) = Some data}
      \<subseteq> {data. \<exists>f\<in>set (f # rest). d (snd f) = Some data}"
    by auto
  ultimately have "snd ` set txn' \<subseteq> snd ` set txn \<union> {data. \<exists>f\<in>set (f # rest). d (snd f) = Some data}"
    using sub ord_put_vals [of "frame_key vk i" data txn] by blast
  with len show ?case by simp
qed

lemma all_good_filter: "\<forall>x\<in>set xs. \<not> bad x \<Longrightarrow> filter (\<lambda>x. \<not> bad x) xs = xs"
  by (induction xs) simp_all

lemma LMDB_info_total:
  assumes ok: "\<forall>x\<in>set db. decode (snd x) \<noteq> None" and ne: "db \<noteq> []"
  shows "\<exists>log rep im. LMDB_info decode db = (log, Inr (rep, im)) \<and> total rep = length db"
proof -
  let ?s = "fold (\<lambda>(k, v). visit decode k v) db scan0"
  let ?bad = "\<lambda>x. decode (snd x) = None"
  from ok have all: "filter (\<lambda>x. \<not> ?bad x) db = db" by (rule all_good_filter)
  have "total (info_d ?s) = total (info_d scan0) + length (filter (\<lambda>x. \<not> ?bad x) db)"
    by (rule fold_steps_total [where bad = ?bad]) (simp add: visit_total split_beta)
  with all have t: "total (info_d ?s) = length db"
    by (simp add: scan0_def total_def)
  have "img ?s = None \<longleftrightarrow> img scan0 = None \<and> filter (\<lambda>x. \<not> ?bad x) db = []"
    by (rule fold_steps_img [where bad = ?bad]) (simp add: visit_img split_beta)
  with all ne have "img ?s \<noteq> None" by simp
  from finish_total [OF this] t show ?thesis
    by (auto simp add: LMDB_info_def)
qed

lemma LMDB_roundtrip:
  assumes valid: "\<forall>f\<in>set ffs. \<exists>data. d (snd f) = Some data \<and> decode data \<noteq> None"
    and ne: "ffs \<noteq> []"
  shows "\<exists>db log rep im. LMDB_put [] vk d ffs = (None, db)
           \<and> LMDB_info decode db = (log, Inr (rep, im)) \<and> total rep = length ffs"
proof -
  from valid have "\<forall>f\<in>set ffs. d (snd f) \<noteq> None" by auto
  from LMDB_put_loop_succeeds [OF this]
  obtain db where loop: "LMDB_put_loop vk d 0 ffs [] = Inr db" by blast
  from LMDB_put_loop_content [OF loop]
  have len: "length db = length ffs"
    and vals: "snd ` set db \<subseteq> {data. \<exists>f\<in>set ffs. d (snd f) = Some data}"
    by auto
  have ok: "\<forall>x\<in>set db. decode (snd x) \<noteq> None"
  proof
    fix x assume "x \<in> set db"
    with vals obtain f where f: "f \<in> set ffs" and x: "d (snd f) = Some (snd x)" by auto
    from valid f obtain data where "d (snd f) = Some data" and "decode data \<noteq> None" by blast
    with x show "decode (snd x) \<noteq> None" by simp
  qed
  from len ne have "db \<noteq> []" by (cases db) simp_all
  from LMDB_info_total [OF ok this] len loop show ?thesis
    by (auto simp add: LMDB_put_def)
qed


text \<open>HDF5 after a put.\<close>

lemma HDF5_put_loop_group:
  assumes "\<forall>f\<in>set ffs. d (snd f) \<noteq> None" and "CHR ''/'' \<notin> set vk"
    and "fst ` set ms \<subseteq> fmt08d ` {..<i}"
  shows "\<exists>ms'. HDF5_put_loop vk d i ffs [(vk, ms)] = (None, [(vk, ms')])
           \<and> length ms' = length ms + length ffs
           \<and> snd ` set ms' \<subseteq> snd ` set ms \<union> {data. \<exists>f\<in>set ffs. d (snd f) = Some data}"
  using assms
proof (induction ffs arbitrary: i ms)
  case Nil
  then show ?case by simp
next
  case (Cons f rest)
  obtain fid p where f: "f = (fid, p)" by (cases f)
  from Cons.prems(1) f obtain data where data: "d p = Some data" by auto
  let ?ms1 = "ord_put (fmt08d i) data ms"
  from Cons.prems(3) have fresh: "fmt08d i \<notin> fst ` set ms"
    by (auto dest: fmt08d_inj)
  then have none: "map_of ms (fmt08d i) = None"
    by (simp add: map_of_eq_None_iff)
  have cr: "h5_create (frame_key vk i) data [(vk, ms)] = Inr [(vk, ?ms1)]"
    by (simp add: h5_create_def h5_split_frame_key [OF Cons.prems(2)] none)
  from Cons.prems(3) have keys: "fst ` set ?ms1 \<subseteq> fmt08d ` {..<Suc i}"
    by (auto simp add: ord_put_keys lessThan_Suc)
  from Cons.prems(1) have rest: "\<forall>f\<in>set rest. d (snd f) \<noteq> None" by simp
  from Cons.IH [OF rest Cons.prems(2) keys]
  obtain ms' where loop: "HDF5_put_loop vk d (Suc i) rest [(vk, ?ms1)] = (None, [(vk, ms')])"
    and len: "length ms' = length ?ms1 + length rest"
    and sub: "snd ` set ms' \<subseteq> snd ` set ?ms1 \<union> {data. \<exists>f\<in>set rest. d (snd f) = Some data}"
    by blast
  have step: "HDF5_put_loop vk d i (f # rest) [(vk, ms)] = (None, [(vk, ms')])"
    using f data cr loop by simp
  have len': "length ms' = length ms + length (f # rest)"
    using len ord_put_fresh_length [OF fresh, of data] by simp
  have "data \<in> {data. \<exists>f\<in>set (f # rest). d (snd f) = Some data}"
    using f data by simp
  moreover have "{data. \<exists>f\<in>set rest. d (snd f) = Some data}
      \<subseteq> {data. \<exists>f\<in>set (f # rest). d (snd f) = Some data}"
    by auto
  ultimately have "snd ` set ms' \<subseteq> snd ` set ms \<union> {data. \<exists>f\<in>set (f # rest). d (snd f) = Some data}"
    using sub ord_put_vals [of "fmt08d i" data ms] by blast
  with step len' show ?case by blast
qed

lemma visit_fold_total:
  assumes ok: "\<forall>x\<in>set xs. decode (snd x) \<noteq> None" and ne: "xs \<noteq> []"
  shows "\<exists>rep im. finish (fold (\<lambda>(k, v). visit decode (nm k) v) xs scan0) =
            (out (fold (\<lambda>(k, v). visit decode (nm k) v) xs scan0), Inr (rep, im))
          \<and> total rep = length xs"
proof -
  let ?s = "fold (\<lambda>(k, v). visit decode (nm k) v) xs scan0"
  let ?bad = "\<lambda>x. decode (snd x) = None"
  from ok have all: "filter (\<lambda>x. \<not> ?bad x) xs = xs" by (rule all_good_filter)
  have "total (info_d ?s) = total (info_d scan0) + length (filter (\<lambda>x. \<not> ?bad x) xs)"
    by (rule fold_steps_total [where bad = ?bad]) (simp add: visit_total split_beta)
  with all have t: "total (info_d ?s) = length xs"
    by (simp add: scan0_def total_def)
  have "img ?s = None \<longleftrightarrow> img scan0 = None \<and> filter (\<lambda>x. \<not> ?bad x) xs = []"
    by (rule fold_steps_img [where bad = ?bad]) (simp add: visit_img split_beta)
  with all ne have "img ?s \<noteq> None" by simp
  from finish_total [OF this] t show ?thesis by simp
qed

lemma frames_decodable:
  assumes valid: "\<forall>f\<in>set ffs. \<exists>data. d (snd f) = Some data \<and> decode data \<noteq> None"
    and vals: "V \<subseteq> {data. \<exists>f\<in>set ffs. d (snd f) = Some data}"
    and v: "v \<in> V"
  shows "decode v \<noteq> None"
proof -
  from vals v obtain f where f: "f \<in> set ffs" and x: "d (snd f) = Some v" by auto
  from valid f obtain data where "d (snd f) = Some data" and "decode data \<noteq> None" by blast
  with x show ?thesis by simp
qed

lemma HDF5_roundtrip:
  assumes valid: "\<forall>f\<in>set ffs. \<exists>data. d (snd f) = Some data \<and> decode data \<noteq> None"
    and ne: "ffs \<noteq> []" and vk: "CHR ''/'' \<notin> set vk"
  shows "\<exists>db log rep im. HDF5_put [] vk d ffs = (None, db)
           \<and> HDF5_info decode db = (log, Inr (rep, im)) \<and> total rep = length ffs"
proof -
  from ne obtain f rest where ffs: "ffs = f # rest" by (cases ffs) auto
  obtain fid p where f: "f = (fid, p)" by (cases f)
  from valid ffs f obtain data where data: "d p = Some data" by auto
  from valid ffs have rest: "\<forall>f\<in>set rest. d (snd f) \<noteq> None" by auto
  have cr: "h5_create (frame_key vk 0) data [] = Inr [(vk, [(fmt08d 0, data)])]"
    by (simp add: h5_create_def h5_split_frame_key [OF vk])
  have keys: "fst ` set [(fmt08d 0, data)] \<subseteq> fmt08d ` {..<Suc 0}" by simp
  from HDF5_put_loop_group [OF rest vk keys]
  obtain ms where loop: "HDF5_put_loop vk d (Suc 0) rest [(vk, [(fmt08d 0, data)])] = (None, [(vk, ms)])"
    and len: "length ms = length [(fmt08d 0, data)] + length rest"
    and sub: "snd ` set ms \<subseteq> snd ` set [(fmt08d 0, data)] \<union> {data. \<exists>f\<in>set rest. d (snd f) = Some data}"
    by blast
  have put: "HDF5_put [] vk d ffs = (None, [(vk, ms)])"
    using ffs f data cr loop by (simp add: HDF5_put_def)
  have "snd ` set ms \<subseteq> {data. \<exists>f\<in>set ffs. d (snd f) = Some data}"
    using sub ffs f data by auto
  then have ok: "\<forall>x\<in>set ms. decode (snd x) \<noteq> None"
    using frames_decodable [OF valid] by blast
  from len have "ms \<noteq> []" by (cases ms) simp_all
  from visit_fold_total [OF ok this, of "\<lambda>fid. vk @ ''/'' @ fid"] len ffs
  have "\<exists>log rep im. HDF5_info decode [(vk, ms)] = (log, Inr (rep, im)) \<and> total rep = length ffs"
    by (auto simp add: HDF5_info_def HDF5_scan_group_def)
  with put show ?thesis by blast
qed


text \<open>The file tree after a put.\<close>

lemma dir_put_fresh: "k \<notin> fst ` set t \<Longrightarrow> dir_put k v t = t @ [(k, v)]"
  by (induction t) auto

lemma is_jpg_suffix: "is_jpg (p @ ''.jpg'')"
  by (simp add: is_jpg_def)

lemma jpg_key_inj: "frame_key vk i @ ''.jpg'' = frame_key vk j @ ''.jpg'' \<Longrightarrow> i = j"
  by (simp add: frame_key_inj)

lemma FILE_put_loop_fresh:
  assumes "\<forall>f\<in>set ffs. d (snd f) \<noteq> None"
    and "\<forall>j\<ge>i. frame_key vk j @ ''.jpg'' \<notin> fst ` set t"
  shows "\<exists>new. FILE_put_loop vk d i ffs t = (None, t @ new) \<and> length new = length ffs
           \<and> (\<forall>x\<in>set new. is_jpg (fst x)
                 \<and> (\<exists>data. snd x = File data \<and> (\<exists>f\<in>set ffs. d (snd f) = Some data)))"
  using assms
proof (induction ffs arbitrary: i t)
  case Nil
  then show ?case by simp
next
  case (Cons f rest)
  obtain fid p where f: "f = (fid, p)" by (cases f)
  from Cons.prems(1) f obtain data where data: "d p = Some data" by auto
  let ?k = "frame_key vk i @ ''.jpg''"
  let ?t1 = "t @ [(?k, File data)]"
  from Cons.prems(2) have "?k \<notin> fst ` set t" by simp
  then have put1: "dir_put ?k (File data) t = ?t1" by (rule dir_put_fresh)
  have fresh1: "\<forall>j\<ge>Suc i. frame_key vk j @ ''.jpg'' \<notin> fst ` set ?t1"
  proof (intro allI impI)
    fix j assume j: "Suc i \<le> j"
    with Cons.prems(2) have "frame_key vk j @ ''.jpg'' \<notin> fst ` set t" by simp
    moreover from j have "frame_key vk j @ ''.jpg'' \<noteq> ?k"
      using jpg_key_inj [of vk j i] by auto
    ultimately show "frame_key vk j @ ''.jpg'' \<notin> fst ` set ?t1" by simp
  qed
  from Cons.prems(1) have rest: "\<forall>f\<in>set rest. d (snd f) \<noteq> None" by simp
  from Cons.IH [OF rest fresh1]
  obtain new where loop: "FILE_put_loop vk d (Suc i) rest ?t1 = (None, ?t1 @ new)"
    and len: "length new = length rest"
    and each: "\<forall>x\<in>set new. is_jpg (fst x)
                 \<and> (\<exists>data. snd x = File data \<and> (\<exists>f\<in>set rest. d (snd f) = Some data))"
    by blast
  let ?new = "(?k, File data) # new"
  have "FILE_put_loop vk d i (f # rest) t = (None, t @ ?new)"
    using f data put1 loop by simp
  moreover have "length ?new = length (f # rest)" using len by simp
  moreover have "\<forall>x\<in>set ?new. is_jpg (fst x)
                 \<and> (\<exists>data. snd x = File data \<and> (\<exists>f\<in>set (f # rest). d (snd f) = Some data))"
  proof
    fix x assume "x \<in> set ?new"
    then consider "x = (?k, File data)" | "x \<in> set new" by auto
    then show "is_jpg (fst x)
                 \<and> (\<exists>data. snd x = File data \<and> (\<exists>f\<in>set (f # rest). d (snd f) = Some data))"
    proof cases
      case 1
      with f data show ?thesis by (simp add: is_jpg_suffix)
    next
      case 2
      with each show ?thesis by fastforce
    qed
  qed
  ultimately show ?case by blast
qed

lemma vk_not_jpg_key: "vk \<noteq> frame_key vk j @ ''.jpg''"
proof
  assume "vk = frame_key vk j @ ''.jpg''"
  then have "length vk = length (frame_key vk j @ ''.jpg'')" by simp
  then show False by (simp add: frame_key_def)
qed

lemma open_node_total:
  "total (info_d (open_node decode f s)) = total (info_d s) + (if unreadable decode f then 0 else 1)"
  by (cases "snd f") (simp_all add: open_node_def unreadable_def visit_total)

lemma open_node_img:
  "img (open_node decode f s) = None \<longleftrightarrow> img s = None \<and> unreadable decode f"
  by (cases "snd f") (simp_all add: open_node_def unreadable_def visit_img)

lemma FILE_roundtrip:
  assumes valid: "\<forall>f\<in>set ffs. \<exists>data. d (snd f) = Some data \<and> decode data \<noteq> None"
    and ne: "ffs \<noteq> []"
  shows "\<exists>t log rep im. FILE_put [] vk d ffs = (None, t)
           \<and> FILE_info decode t = (log, Inr (rep, im)) \<and> total rep = length ffs"
proof -
  from valid have readable: "\<forall>f\<in>set ffs. d (snd f) \<noteq> None" by auto
  have fresh: "\<forall>j\<ge>0. frame_key vk j @ ''.jpg'' \<notin> fst ` set [(vk, Dir)]"
    using vk_not_jpg_key [of vk] by (auto dest: sym)
  from FILE_put_loop_fresh [OF readable fresh]
  obtain new where loop: "FILE_put_loop vk d 0 ffs [(vk, Dir)] = (None, [(vk, Dir)] @ new)"
    and len: "length new = length ffs"
    and each: "\<forall>x\<in>set new. is_jpg (fst x)
                 \<and> (\<exists>data. snd x = File data \<and> (\<exists>f\<in>set ffs. d (snd f) = Some data))"
    by blast
  let ?t = "(vk, Dir) # new"
  have put: "FILE_put [] vk d ffs = (None, ?t)"
    using loop by (simp add: FILE_put_def mkdir_p_def)
  have good: "\<forall>x\<in>set new. is_jpg (fst x) \<and> \<not> unreadable decode x"
  proof
    fix x assume "x \<in> set new"
    with each obtain data f where j: "is_jpg (fst x)" and x: "snd x = File data"
      and f: "f \<in> set ffs" and df: "d (snd f) = Some data" by blast
    from valid f df have "decode data \<noteq> None" by fastforce
    with j x show "is_jpg (fst x) \<and> \<not> unreadable decode x" by (simp add: unreadable_def)
  qed
  let ?xs = "filter (\<lambda>f. is_jpg (fst f)) ?t"
  let ?s = "fold (open_node decode) ?xs scan0"
  from good have jn: "filter (\<lambda>f. is_jpg (fst f)) new = new" by (induction new) simp_all
  from good have gn: "filter (\<lambda>x. \<not> unreadable decode x) new = new" by (induction new) simp_all
  have cnt: "filter (\<lambda>x. \<not> unreadable decode x) ?xs = new"
    using jn gn by (simp add: unreadable_def)
  have "total (info_d ?s) = total (info_d scan0) + length (filter (\<lambda>x. \<not> unreadable decode x) ?xs)"
    by (rule fold_steps_total [where bad = "unreadable decode"]) (simp add: open_node_total)
  with cnt len have t: "total (info_d ?s) = length ffs"
    by (simp add: scan0_def total_def)
  have "img ?s = None \<longleftrightarrow> img scan0 = None \<and> filter (\<lambda>x. \<not> unreadable decode x) ?xs = []"
    by (rule fold_steps_img [where bad = "unreadable decode"]) (simp add: open_node_img)
  with cnt len ne have "img ?s \<noteq> None" by (cases new) simp_all
  from finish_total [OF this] t
  have "\<exists>log rep im. FILE_info decode ?t = (log, Inr (rep, im)) \<and> total rep = length ffs"
    by (auto simp add: FILE_info_def)
  with put show ?thesis by blast
qed

text \<open>The pickle directory after a put.\<close>

lemma read_all_readable:
  assumes "\<forall>f\<in>set ffs. d (snd f) \<noteq> None"
  shows "\<exists>frame_data. read_all d ffs = Inr frame_data \<and> length frame_data = length ffs
           \<and> set frame_data \<subseteq> {data. \<exists>f\<in>set ffs. d (snd f) = Some data}"
  using assms
proof (induction ffs)
  case Nil
  then show ?case by simp
next
  case (Cons f rest)
  obtain fid p where f: "f = (fid, p)" by (cases f)
  from Cons.prems f obtain data where data: "d p = Some data" by auto
  from Cons.prems have "\<forall>f\<in>set rest. d (snd f) \<noteq> None" by simp
  from Cons.IH [OF this] obtain fd where fd: "read_all d rest = Inr fd"
    and len: "length fd = length rest"
    and sub: "set fd \<subseteq> {data. \<exists>f\<in>set rest. d (snd f) = Some data}" by blast
  have "read_all d (f # rest) = Inr (data # fd)" using f data fd by simp
  moreover have "length (data # fd) = length (f # rest)" using len by simp
  moreover have "set (data # fd) \<subseteq> {data. \<exists>f\<in>set (f # rest). d (snd f) = Some data}"
    using sub f data by auto
  ultimately show ?case by blast
qed

lemma PKL_roundtrip:
  assumes valid: "\<forall>f\<in>set ffs. \<exists>data. d (snd f) = Some data \<and> decode data \<noteq> None"
    and ne: "ffs \<noteq> []"
  shows "\<exists>db log rep im. PKL_put [] vk d ffs = (None, db)
           \<and> PKL_info decode db = (log, Inr (rep, im)) \<and> total rep = length ffs"
proof -
  from valid have "\<forall>f\<in>set ffs. d (snd f) \<noteq> None" by auto
  from read_all_readable [OF this] obtain fd where fd: "read_all d ffs = Inr fd"
    and len: "length fd = length ffs"
    and sub: "set fd \<subseteq> {data. \<exists>f\<in>set ffs. d (snd f) = Some data}" by blast
  have put: "PKL_put [] vk d ffs = (None, [(vk, Some fd)])"
    using fd by (simp add: PKL_put_def)
  have ok: "\<forall>v\<in>set fd. decode v \<noteq> None"
    using frames_decodable [OF valid sub] by blast
  let ?s = "fold (visit decode vk) fd scan0"
  let ?bad = "\<lambda>v. decode v = None"
  from ok have all: "filter (\<lambda>x. \<not> ?bad x) fd = fd" by (rule all_good_filter)
  have "total (info_d ?s) = total (info_d scan0) + length (filter (\<lambda>x. \<not> ?bad x) fd)"
    by (rule fold_steps_total [where bad = ?bad]) (simp add: visit_total)
  with all len have t: "total (info_d ?s) = length ffs"
    by (simp add: scan0_def total_def)
  have "img ?s = None \<longleftrightarrow> img scan0 = None \<and> filter (\<lambda>x. \<not> ?bad x) fd = []"
    by (rule fold_steps_img [where bad = ?bad]) (simp add: visit_img)
  with all len ne have "img ?s \<noteq> None" by (cases fd) simp_all
  from finish_total [OF this] t
  have "\<exists>log rep im. PKL_info decode [(vk, Some fd)] = (log, Inr (rep, im)) \<and> total rep = length ffs"
    by (auto simp add: PKL_info_def)
  with put show ?thesis by blast
qed

text \<open>
  The round trip for a video with at least one retained frame: on a backend
  constructed at a fresh path, for a frame list whose files all hold images
  \<^verbatim>\<open>Image.open\<close> accepts, \<^verbatim>\<open>put\<close> succeeds and \<^verbatim>\<open>info\<close> after \<^verbatim>\<open>close\<close> returns a
  report whose counts add up to the number of frames, whichever the backend.
\<close>

lemma info_total_after_put:
  assumes valid: "\<forall>f\<in>set ffs. \<exists>data. d (snd f) = Some data \<and> decode data \<noteq> None"
    and ne: "ffs \<noteq> []" and vk: "CHR ''/'' \<notin> set vk"
  shows "\<exists>st log rep im. put (new_storage B) vk d ffs = (None, st)
           \<and> info decode (close st) = (log, Inr (rep, im)) \<and> total rep = length ffs"
proof (cases B)
  case LMDB
  from LMDB_roundtrip [OF valid ne, of vk] obtain db log rep im
    where "LMDB_put [] vk d ffs = (None, db)"
      and "LMDB_info decode db = (log, Inr (rep, im))" and "total rep = length ffs" by blast
  with LMDB show ?thesis by simp
next
  case HDF5
  from HDF5_roundtrip [OF valid ne vk] obtain db log rep im
    where "HDF5_put [] vk d ffs = (None, db)"
      and "HDF5_info decode db = (log, Inr (rep, im))" and "total rep = length ffs" by blast
  with HDF5 show ?thesis by simp
next
  case FILE
  from FILE_roundtrip [OF valid ne, of vk] obtain db log rep im
    where "FILE_put [] vk d ffs = (None, db)"
      and "FILE_info decode db = (log, Inr (rep, im))" and "total rep = length ffs" by blast
  with FILE show ?thesis by simp
next
  case PKL
  from PKL_roundtrip [OF valid ne, of vk] obtain db log rep im
    where "PKL_put [] vk d ffs = (None, db)"
      and "PKL_info decode db = (log, Inr (rep, im))" and "total rep = length ffs" by blast
  with PKL show ?thesis by simp
qed

text \<open>
  The scenario of five 2 by 2 images on the plain-file backend: the report is
  \<open>{(2, 2): 5}\<close> and the sample is the last file opened.
\<close>

lemma roundtrip_example:
  "info (\<lambda>b. if take 1 b = ''J'' then Some (2, 2) else None)
     (close (snd (put (new_storage FILE) ''clip''
        [''1.jpg'' \<mapsto> ''Ja'', ''2.jpg'' \<mapsto> ''Jb'', ''3.jpg'' \<mapsto> ''Jc'', ''4.jpg'' \<mapsto> ''Jd'', ''5.jpg'' \<mapsto> ''Je'']
        [(1, ''1.jpg''), (2, ''2.jpg''), (3, ''3.jpg''), (4, ''4.jpg''), (5, ''5.jpg'')])))
   = ([], Inr ([((2, 2), 5)], ''Je''))"
  by code_simp

text \<open>
  C1 (frame count after the round trip). The property holds for every video with at
  least one retained frame (\<open>info_total_after_put\<close>). For a video with no
  retained frame, \<^verbatim>\<open>put\<close> succeeds on each of the four backends, but \<^verbatim>\<open>info\<close> after
  \<^verbatim>\<open>close\<close> returns no report: it raises at \<^verbatim>\<open>return info, img\<close>, where \<^verbatim>\<open>img\<close> was
  never bound. A report with total 0 is what the specification asks for there.
\<close>

theorem C1_no_frames_info_raises:
  "fst (put (new_storage B) vk d []) = None
   \<and> snd (info decode (close (snd (put (new_storage B) vk d [])))) = Inl UnboundLocalError"
proof (cases B)
  case LMDB
  then show ?thesis by (simp add: LMDB_put_def LMDB_info_def finish_def scan0_def)
next
  case HDF5
  then show ?thesis by (simp add: HDF5_put_def HDF5_info_def finish_def scan0_def)
next
  case FILE
  then show ?thesis
    by (simp add: FILE_put_def mkdir_p_def FILE_info_def open_node_def finish_def scan0_def)
next
  case PKL
  then show ?thesis by (simp add: PKL_put_def PKL_info_def finish_def scan0_def)
qed

text \<open>
  C5 (empty-database scan). On an HDF5 file with no group the scan prints
  "No video frames found" and then raises at \<^verbatim>\<open>return info, img\<close>, since \<^verbatim>\<open>img\<close> was
  never bound; on an empty LMDB environment it prints nothing and raises the same
  error. No report is returned in either case.
\<close>

theorem C5_empty_scan_raises:
  "HDF5_info decode [] = ([NoVideoFramesFound], Inl UnboundLocalError)
   \<and> LMDB_info decode [] = ([], Inl UnboundLocalError)"
  by (simp add: HDF5_info_def LMDB_info_def finish_def scan0_def)

text \<open>
  C6 (exclusive create). Constructing the HDF5 backend at a path where no file exists
  succeeds and leaves an empty file there; constructing it again at the same path
  fails with \<open>FileExistsError\<close>. At a path where a file exists the constructor fails,
  so an existing file is never replaced.
\<close>

theorem C6_exclusive_create:
  "(disk path = None \<longrightarrow>
      (\<exists>disk'. HDF5_init disk path = Inr disk' \<and> disk' path = Some []
         \<and> HDF5_init disk' path = Inl FileExistsError))
   \<and> (disk path \<noteq> None \<longrightarrow> HDF5_init disk path = Inl FileExistsError)"
  by (auto simp add: HDF5_init_def)

theorem C6_exclusive_create_witness:
  "HDF5_init Map.empty ''frames.h5'' = Inr [''frames.h5'' \<mapsto> []]
   \<and> HDF5_init [''frames.h5'' \<mapsto> []] ''frames.h5'' = Inl FileExistsError
   \<and> HDF5_init [''frames.h5'' \<mapsto> [(''clip'', [(''00000000'', ''x'')])]] ''frames.h5'' = Inl FileExistsError"
  using C6_exclusive_create [of Map.empty "''frames.h5''"]
    C6_exclusive_create [of "[''frames.h5'' \<mapsto> [(''clip'', [(''00000000'', ''x'')])]]" "''frames.h5''"]
  by (simp add: HDF5_init_def)

section \<open>Results on frame selection and duplicate filtering\<close>

lemma frame_loop_no_dedup:
  assumes "no_duplicates a \<le> 0"
  shows "hashes (frame_loop H a sids fs s) = hashes s
    \<and> duplicates (frame_loop H a sids fs s) = duplicates s
    \<and> total_files (frame_loop H a sids fs s)
        = total_files s + length (filter (\<lambda>f. \<not> skipped a sids (f_id f)) fs)
    \<and> frame_files (frame_loop H a sids fs s)
        = frame_files s @ pairs (filter (\<lambda>f. \<not> skipped a sids (f_id f)) fs)"
  using assms by (induction fs arbitrary: s) (simp_all add: pairs_def Let_def)

lemma frame_loop_no_dedup_indep:
  assumes "no_duplicates a \<le> 0"
  shows "frame_loop H a sids fs s = frame_loop H' a sids fs s"
  using assms by (induction fs arbitrary: s) (simp_all add: Let_def)

lemma detect_duplicate_cong:
  "no_duplicates a' = no_duplicates a \<Longrightarrow> hash_size a' = hash_size a
   \<Longrightarrow> detect_duplicate H a' hs b = detect_duplicate H a hs b"
  by (simp add: detect_duplicate_def diff_limit_def)

lemma frame_loop_filter:
  assumes "no_duplicates a' = no_duplicates a" and "hash_size a' = hash_size a"
    and "\<And>fid. \<not> skipped a' sids' fid"
  shows "frame_loop H a sids fs s
       = frame_loop H a' sids' (filter (\<lambda>f. \<not> skipped a sids (f_id f)) fs) s"
  using assms
  by (induction fs arbitrary: s)
     (simp_all add: Let_def detect_duplicate_cong [of a' a] split: prod.split bool.split)

lemma map_fst_sort:
  "map fst (sort (ps :: (int \<times> string) list)) = sort (map fst ps)"
proof -
  have s: "sorted (map fst (sort ps))"
    by (rule sorted_map [THEN iffD2], rule sorted_wrt_mono_rel [of _ "(\<le>)"])
       (auto simp add: less_eq_prod_def)
  have m: "mset (map fst (sort ps)) = mset (map fst ps)" by simp
  from m s have "sort (map fst ps) = map fst (sort ps)" by (rule properties_for_sort)
  then show ?thesis by simp
qed


lemma skipped_stride:
  "num_frame a \<le> 0 \<Longrightarrow> 1 \<le> skip a \<Longrightarrow> \<not> skipped a sids fid \<longleftrightarrow> (fid - 1) mod skip a = 0"
  by (cases "skip a = 1") (simp_all add: skipped_def)

lemma not_skipped_plain: "num_frame a \<le> 0 \<Longrightarrow> skip a \<le> 1 \<Longrightarrow> \<not> skipped a sids fid"
  by (simp add: skipped_def)

text \<open>
  C8 (skip-stride). In skip-stride mode (no uniform count) with stride
  \<open>skip \<ge> 1\<close>, the loop passes a frame id \<open>f\<close> on exactly when
  \<open>(f - 1) mod skip = 0\<close>: the whole loop, duplicate filter included, does what the
  loop without a stride does on exactly those files; without duplicate filtering the
  retained files are exactly those, in directory order. With \<open>skip = 1\<close> and no
  duplicate filtering every file is retained, and after the sort the frame ids handed
  to \<^verbatim>\<open>put\<close> are the input ids in ascending order.
\<close>

theorem C8_skip_stride:
  "num_frame a \<le> 0 \<Longrightarrow> 1 \<le> skip a \<Longrightarrow>
     (\<not> skipped a sids fid \<longleftrightarrow> (fid - 1) mod skip a = 0)
   \<and> frame_loop H a sids fs s
       = frame_loop H (a\<lparr>skip := 1\<rparr>) sids (filter (\<lambda>f. (f_id f - 1) mod skip a = 0) fs) s
   \<and> (no_duplicates a \<le> 0 \<longrightarrow>
        frame_files (frame_loop H a sids fs loop0)
          = pairs (filter (\<lambda>f. (f_id f - 1) mod skip a = 0) fs)
        \<and> total_files (frame_loop H a sids fs loop0)
          = length (filter (\<lambda>f. (f_id f - 1) mod skip a = 0) fs))
   \<and> (no_duplicates a \<le> 0 \<and> skip a = 1 \<longrightarrow>
        (\<exists>s'. select_frames H a fs = Inr s' \<and> frame_files s' = sort (pairs fs)
           \<and> map fst (frame_files s') = sort (map f_id fs)))"
proof -
  assume n: "num_frame a \<le> 0" and k: "1 \<le> skip a"
  have sel: "(\<lambda>f. \<not> skipped a sids (f_id f)) = (\<lambda>f. (f_id f - 1) mod skip a = 0)" for sids
    using skipped_stride [OF n k] by simp
  have 1: "\<not> skipped a sids fid \<longleftrightarrow> (fid - 1) mod skip a = 0"
    by (rule skipped_stride [OF n k])
  have "frame_loop H a sids fs s
       = frame_loop H (a\<lparr>skip := 1\<rparr>) sids (filter (\<lambda>f. \<not> skipped a sids (f_id f)) fs) s"
    by (rule frame_loop_filter) (simp_all add: not_skipped_plain n)
  then have 2: "frame_loop H a sids fs s
       = frame_loop H (a\<lparr>skip := 1\<rparr>) sids (filter (\<lambda>f. (f_id f - 1) mod skip a = 0) fs) s"
    by (simp only: sel)
  have 3: "frame_files (frame_loop H a sids fs loop0)
          = pairs (filter (\<lambda>f. (f_id f - 1) mod skip a = 0) fs)
        \<and> total_files (frame_loop H a sids fs loop0)
          = length (filter (\<lambda>f. (f_id f - 1) mod skip a = 0) fs)"
    if d: "no_duplicates a \<le> 0"
    using frame_loop_no_dedup [OF d, of H sids fs loop0] by (simp add: sel loop0_def)
  have 4: "\<exists>s'. select_frames H a fs = Inr s' \<and> frame_files s' = sort (pairs fs)
           \<and> map fst (frame_files s') = sort (map f_id fs)"
    if d: "no_duplicates a \<le> 0" and one: "skip a = 1"
  proof -
    from one have "frame_files (frame_loop H a [] fs loop0) = pairs fs"
      using frame_loop_no_dedup [OF d, of H "[]" fs loop0] by (simp add: sel loop0_def)
    moreover have "map fst (pairs fs) = map f_id fs" by (simp add: pairs_def)
    ultimately show ?thesis
      using n by (simp add: select_frames_def sample_ids_def map_fst_sort)
  qed
  from 1 2 3 4 show ?thesis by blast
qed


theorem C8_skip_stride_witness:
  "frame_files (frame_loop (\<lambda>b n. [])
       \<lparr>skip = 2, num_frame = - 1, interval = 0, no_duplicates = 0, hash_size = 8\<rparr> []
       [\<lparr>f_id = 3, f_name = ''3.jpg'', f_data = ''c''\<rparr>, \<lparr>f_id = 1, f_name = ''1.jpg'', f_data = ''a''\<rparr>,
        \<lparr>f_id = 2, f_name = ''2.jpg'', f_data = ''b''\<rparr>, \<lparr>f_id = 4, f_name = ''4.jpg'', f_data = ''d''\<rparr>,
        \<lparr>f_id = 5, f_name = ''5.jpg'', f_data = ''e''\<rparr>] loop0)
     = [(3, ''3.jpg''), (1, ''1.jpg''), (5, ''5.jpg'')]
   \<and> (\<exists>s'. select_frames (\<lambda>b n. [])
       \<lparr>skip = 1, num_frame = - 1, interval = 0, no_duplicates = 0, hash_size = 8\<rparr>
       [\<lparr>f_id = 3, f_name = ''3.jpg'', f_data = ''c''\<rparr>, \<lparr>f_id = 1, f_name = ''1.jpg'', f_data = ''a''\<rparr>,
        \<lparr>f_id = 2, f_name = ''2.jpg'', f_data = ''b''\<rparr>, \<lparr>f_id = 4, f_name = ''4.jpg'', f_data = ''d''\<rparr>,
        \<lparr>f_id = 5, f_name = ''5.jpg'', f_data = ''e''\<rparr>] = Inr s'
       \<and> map fst (frame_files s') = [1, 2, 3, 4, 5])"
proof -
  let ?H = "\<lambda>(b :: bytes) (n :: int). [] :: hash"
  let ?a2 = "\<lparr>skip = 2, num_frame = - 1, interval = 0, no_duplicates = 0, hash_size = 8\<rparr>"
  let ?a1 = "\<lparr>skip = 1, num_frame = - 1, interval = 0, no_duplicates = 0, hash_size = 8\<rparr>"
  let ?fs = "[\<lparr>f_id = 3, f_name = ''3.jpg'', f_data = ''c''\<rparr>, \<lparr>f_id = 1, f_name = ''1.jpg'', f_data = ''a''\<rparr>,
        \<lparr>f_id = 2, f_name = ''2.jpg'', f_data = ''b''\<rparr>, \<lparr>f_id = 4, f_name = ''4.jpg'', f_data = ''d''\<rparr>,
        \<lparr>f_id = 5, f_name = ''5.jpg'', f_data = ''e''\<rparr>]"
  have n2: "num_frame ?a2 \<le> 0" and k2: "1 \<le> skip ?a2" and d2: "no_duplicates ?a2 \<le> 0"
    by simp_all
  from C8_skip_stride [OF n2 k2, of "[]" _ ?H ?fs loop0] d2
  have "frame_files (frame_loop ?H ?a2 [] ?fs loop0)
      = pairs (filter (\<lambda>f. (f_id f - 1) mod skip ?a2 = 0) ?fs)"
    by blast
  also have "\<dots> = [(3, ''3.jpg''), (1, ''1.jpg''), (5, ''5.jpg'')]"
    by (simp add: pairs_def)
  finally have A: "frame_files (frame_loop ?H ?a2 [] ?fs loop0)
      = [(3, ''3.jpg''), (1, ''1.jpg''), (5, ''5.jpg'')]" .
  have n1: "num_frame ?a1 \<le> 0" and k1: "1 \<le> skip ?a1"
    and d1: "no_duplicates ?a1 \<le> 0 \<and> skip ?a1 = 1"
    by simp_all
  from C8_skip_stride [OF n1 k1, of "[]" _ ?H ?fs loop0] d1
  obtain s' where s: "select_frames ?H ?a1 ?fs = Inr s'"
    and m: "map fst (frame_files s') = sort (map f_id ?fs)"
    by blast
  have "sort (map f_id ?fs) = [1, 2, 3, 4, 5]" by simp
  with s m have B: "\<exists>s'. select_frames ?H ?a1 ?fs = Inr s' \<and> map fst (frame_files s') = [1, 2, 3, 4, 5]"
    by simp
  from A B show ?thesis by blast
qed

text \<open>
  C9 (threshold 0 bypasses the filter). With \<^verbatim>\<open>no_duplicates = 0\<close> the loop retains
  every file the selector passes on, counts no duplicate, stores no fingerprint, and
  its result does not depend on the hash function at all: no fingerprint is computed.
  (A distance check with threshold 0 would use the limit \<open>round(1 * s\<^sup>2)\<close> and
  discard every frame after the first.)
\<close>

theorem C9_threshold_zero_bypass:
  "no_duplicates a = 0 \<Longrightarrow>
     frame_files (frame_loop H a sids fs loop0) = pairs (filter (\<lambda>f. \<not> skipped a sids (f_id f)) fs)
   \<and> total_files (frame_loop H a sids fs loop0) = length (filter (\<lambda>f. \<not> skipped a sids (f_id f)) fs)
   \<and> duplicates (frame_loop H a sids fs loop0) = 0
   \<and> hashes (frame_loop H a sids fs loop0) = []
   \<and> frame_loop H a sids fs loop0 = frame_loop H' a sids fs loop0"
proof -
  assume "no_duplicates a = 0"
  then have d: "no_duplicates a \<le> 0" by simp
  from frame_loop_no_dedup [OF d, of H sids fs loop0] frame_loop_no_dedup_indep [OF d, of H sids fs loop0 H']
  show ?thesis by (simp add: loop0_def)
qed

theorem C9_threshold_zero_bypass_witness:
  "frame_loop (\<lambda>b n. replicate 64 (b = ''white''))
       \<lparr>skip = 1, num_frame = - 1, interval = 0, no_duplicates = 0, hash_size = 8\<rparr> []
       [\<lparr>f_id = 1, f_name = ''1.jpg'', f_data = ''white''\<rparr>, \<lparr>f_id = 2, f_name = ''2.jpg'', f_data = ''white''\<rparr>,
        \<lparr>f_id = 3, f_name = ''3.jpg'', f_data = ''white''\<rparr>] loop0
     = \<lparr>hashes = [], total_files = 3, duplicates = 0,
        frame_files = [(1, ''1.jpg''), (2, ''2.jpg''), (3, ''3.jpg'')]\<rparr>"
proof -
  let ?H = "\<lambda>(b :: bytes) (n :: int). replicate 64 (b = ''white'')"
  let ?a = "\<lparr>skip = 1, num_frame = - 1, interval = 0, no_duplicates = 0, hash_size = 8\<rparr>"
  let ?fs = "[\<lparr>f_id = 1, f_name = ''1.jpg'', f_data = ''white''\<rparr>, \<lparr>f_id = 2, f_name = ''2.jpg'', f_data = ''white''\<rparr>,
        \<lparr>f_id = 3, f_name = ''3.jpg'', f_data = ''white''\<rparr>]"
  have z: "no_duplicates ?a = 0" by simp
  from C9_threshold_zero_bypass [OF z, of ?H "[]" ?fs]
  have "frame_files (frame_loop ?H ?a [] ?fs loop0) = pairs (filter (\<lambda>f. \<not> skipped ?a [] (f_id f)) ?fs)"
    and "total_files (frame_loop ?H ?a [] ?fs loop0) = length (filter (\<lambda>f. \<not> skipped ?a [] (f_id f)) ?fs)"
    and "duplicates (frame_loop ?H ?a [] ?fs loop0) = 0"
    and "hashes (frame_loop ?H ?a [] ?fs loop0) = []"
    by blast+
  then show ?thesis by (simp add: pairs_def skipped_def)
qed

subsection \<open>Rounding to a double\<close>

text \<open>
  What is used of \<open>fl64\<close>: the relative error of a rounding is at most
  \<open>1 / 2 ^ 53\<close>, a rounding never crosses a non-negative integer below \<open>2 ^ 53\<close>,
  and such an integer is a double.
\<close>

lemma py_round_lower: "of_int j \<le> y \<Longrightarrow> j \<le> py_round y"
  unfolding py_round_def Let_def by (auto simp add: le_floor_iff intro: add_increasing2)

lemma py_round_upper:
  assumes "y \<le> of_int j"
  shows "py_round y \<le> j"
proof -
  have f: "\<lfloor>y\<rfloor> \<le> j" using assms by (simp add: floor_le_iff)
  have "\<lfloor>y\<rfloor> + 1 \<le> j" if "1 / 2 \<le> y - of_int \<lfloor>y\<rfloor>"
  proof -
    from that assms have "(of_int \<lfloor>y\<rfloor> :: rat) < of_int j" by linarith
    then show ?thesis by simp
  qed
  with f show ?thesis unfolding py_round_def Let_def by auto
qed

lemma py_round_err: "\<bar>of_int (py_round y) - y\<bar> \<le> 1 / 2"
proof -
  have "of_int \<lfloor>y\<rfloor> \<le> y" "y < of_int \<lfloor>y\<rfloor> + 1" by linarith+
  then show ?thesis unfolding py_round_def Let_def by auto
qed

lemma ilog2_bounds:
  assumes "0 < x"
  shows "2 powi ilog2 x \<le> x \<and> x < 2 powi (ilog2 x + 1)"
proof -
  obtain p q where pq: "quotient_of x = (p, q)" by (cases "quotient_of x")
  then have q: "0 < q" by (rule quotient_of_denom_pos)
  from pq have x: "x = of_int p / of_int q" by (rule quotient_of_div)
  with assms q have p: "0 < p" by (simp add: zero_less_divide_iff)
  define bp where "bp = bitlen p"
  define bq where "bq = bitlen q"
  have bp1: "1 \<le> bp" using p by (simp add: bp_def bitlen_alt_def)
  have bq1: "1 \<le> bq" using q by (simp add: bq_def bitlen_alt_def)
  have pw: "(2::rat) powi k = 2 ^ nat k" if "0 \<le> k" for k
    using that by (simp add: power_int_nonneg_exp)
  have cast_le: "(2::rat) ^ n \<le> of_int z" if "2 ^ n \<le> z" for n and z :: int
  proof -
    from that have "(of_int (2 ^ n) :: rat) \<le> of_int z" by (simp only: of_int_le_iff)
    then show ?thesis by simp
  qed
  have cast_less: "of_int z < (2::rat) ^ n" if "z < 2 ^ n" for n and z :: int
  proof -
    from that have "(of_int z :: rat) < of_int (2 ^ n)" by (simp only: of_int_less_iff)
    then show ?thesis by simp
  qed
  from bitlen_bounds [OF p] have P: "(2::rat) powi (bp - 1) \<le> of_int p" "of_int p < (2::rat) powi bp"
    using bp1 by (simp_all add: bp_def pw cast_le cast_less)
  from bitlen_bounds [OF q] have Q: "(2::rat) powi (bq - 1) \<le> of_int q" "of_int q < (2::rat) powi bq"
    using bq1 by (simp_all add: bq_def pw cast_le cast_less)
  have qpos: "(0::rat) < of_int q" using q by simp
  have lo: "(2::rat) powi (bp - bq - 1) < x"
  proof -
    have "(2::rat) powi (bp - bq - 1) * of_int q < 2 powi (bp - bq - 1) * 2 powi bq"
      using Q(2) by (intro mult_strict_left_mono) simp_all
    also have "\<dots> = 2 powi (bp - 1)" by (simp flip: power_int_add)
    also have "\<dots> \<le> of_int p" by (rule P(1))
    finally show ?thesis using qpos by (simp add: x pos_less_divide_eq)
  qed
  have hi: "x < (2::rat) powi (bp - bq + 1)"
  proof -
    have "of_int p < (2::rat) powi bp" by (rule P(2))
    also have "\<dots> = 2 powi (bp - bq + 1) * 2 powi (bq - 1)" by (simp flip: power_int_add)
    also have "\<dots> \<le> 2 powi (bp - bq + 1) * of_int q"
      using Q(1) by (intro mult_left_mono) simp_all
    finally show ?thesis using qpos by (simp add: x pos_divide_less_eq)
  qed
  show ?thesis
    using lo hi by (simp add: ilog2_def pq Let_def bp_def bq_def not_le less_imp_le)
qed


lemma fl64_pos:
  assumes "0 < x"
  shows "fl64 x = of_int (py_round (x / 2 powi (ilog2 x - 52))) * 2 powi (ilog2 x - 52)"
    and "2 ^ 52 \<le> x / 2 powi (ilog2 x - 52)"
    and "x / 2 powi (ilog2 x - 52) < 2 ^ 53"
proof -
  let ?e = "ilog2 x - 52"
  have P: "(0::rat) < 2 powi ?e" by simp
  from assms show "fl64 x = of_int (py_round (x / 2 powi ?e)) * 2 powi ?e"
    by (simp add: fl64_def Let_def)
  have e: "?e + 52 = ilog2 x" "?e + 53 = ilog2 x + 1" by simp_all
  from ilog2_bounds [OF assms]
  have lo: "(2::rat) powi (?e + 52) \<le> x" and hi: "x < (2::rat) powi (?e + 53)"
    unfolding e by blast+
  have "(2::rat) powi (?e + 52) = 2 ^ 52 * 2 powi ?e"
    by (subst power_int_add) simp_all
  with lo show "2 ^ 52 \<le> x / 2 powi ?e" using P by (simp add: pos_le_divide_eq)
  have "(2::rat) powi (?e + 53) = 2 ^ 53 * 2 powi ?e"
    by (subst power_int_add) simp_all
  with hi show "x / 2 powi ?e < 2 ^ 53" using P by (simp add: pos_divide_less_eq)
qed

lemma fl64_err:
  assumes "0 \<le> x"
  shows "\<bar>fl64 x - x\<bar> \<le> x / 2 ^ 53"
proof (cases "x = 0")
  case True
  then show ?thesis by (simp add: fl64_def)
next
  case False
  with assms have x: "0 < x" by simp
  define P :: rat where "P = 2 powi (ilog2 x - 52)"
  define y where "y = x / P"
  define m where "m = py_round y"
  have P: "0 < P" by (simp add: P_def)
  have fl: "fl64 x = of_int m * P" using fl64_pos(1) [OF x] by (simp add: m_def y_def P_def)
  have y52: "2 ^ 52 \<le> y" using fl64_pos(2) [OF x] by (simp add: y_def P_def)
  have xy: "x = y * P" using P by (simp add: y_def)
  have "fl64 x - x = of_int m * P - y * P" by (simp only: fl flip: xy)
  also have "\<dots> = (of_int m - y) * P" by (simp add: algebra_simps)
  finally have "fl64 x - x = (of_int m - y) * P" .
  then have "\<bar>fl64 x - x\<bar> = \<bar>of_int m - y\<bar> * P" using P by (simp add: abs_mult)
  also have "\<dots> \<le> (1 / 2) * P"
    using py_round_err [of y] P by (intro mult_right_mono) (simp_all add: m_def)
  also have "\<dots> \<le> (y / 2 ^ 53) * P"
    using y52 P by (intro mult_right_mono) simp_all
  also have "\<dots> = x / 2 ^ 53" by (simp add: xy)
  finally show ?thesis .
qed

lemma fl64_nonneg:
  assumes "0 \<le> x"
  shows "0 \<le> fl64 x"
proof -
  have "x / 2 ^ 53 \<le> x" using assms by (simp add: divide_le_eq)
  with fl64_err [OF assms] show ?thesis by linarith
qed


lemma powi_cancel: "e \<le> 0 \<Longrightarrow> (2::rat) powi e * 2 ^ nat (- e) = 1"
proof -
  assume "e \<le> 0"
  then have "(2::rat) ^ nat (- e) = 2 powi (- e)" by (simp add: power_int_nonneg_exp)
  then show ?thesis by (simp add: power_int_minus)
qed

lemma fl64_ge_int:
  assumes k: "0 \<le> k" "k < 2 ^ 53" and kx: "of_int k \<le> x"
  shows "of_int k \<le> fl64 x"
proof (cases "k = 0")
  case True
  with kx show ?thesis by (simp add: fl64_nonneg)
next
  case False
  with k have kpos: "0 < k" by simp
  then have "(0::rat) < of_int k" by simp
  with kx have x: "0 < x" by linarith
  define e where "e = ilog2 x - 52"
  define P :: rat where "P = 2 powi e"
  define y where "y = x / P"
  define m where "m = py_round y"
  have P: "0 < P" by (simp add: P_def)
  have fl: "fl64 x = of_int m * P" using fl64_pos(1) [OF x] by (simp add: m_def y_def P_def e_def)
  have y52: "2 ^ 52 \<le> y" using fl64_pos(2) [OF x] by (simp add: y_def P_def e_def)
  show ?thesis
  proof (cases "e \<le> 0")
    case True
    define n where "n = nat (- e)"
    have c: "P * 2 ^ n = 1" using powi_cancel [OF True] by (simp add: P_def n_def)
    then have Pinv: "1 / P = 2 ^ n" using P by (simp add: field_simps)
    have "of_int (k * 2 ^ n) = of_int k * (1 / P)" by (simp add: Pinv)
    also have "\<dots> \<le> x * (1 / P)" using kx P by (intro mult_right_mono) simp_all
    also have "\<dots> = y" by (simp add: y_def)
    finally have "k * 2 ^ n \<le> m" unfolding m_def by (rule py_round_lower)
    then have "(of_int (k * 2 ^ n) :: rat) \<le> of_int m" by (simp only: of_int_le_iff)
    then have "of_int (k * 2 ^ n) * P \<le> of_int m * P" using P by (intro mult_right_mono) simp_all
    moreover have "of_int (k * 2 ^ n) * P = of_int k * (P * 2 ^ n)" by (simp add: mult_ac)
    ultimately show ?thesis by (simp only: fl c mult_1_right)
  next
    case False
    then have "1 \<le> e" by simp
    then have "(2::rat) powi 1 \<le> 2 powi e" by (intro power_int_increasing) simp_all
    then have P2: "2 \<le> P" by (simp add: P_def)
    have "(of_int (2 ^ 52) :: rat) \<le> y" using y52 by simp
    then have "2 ^ 52 \<le> m" unfolding m_def by (rule py_round_lower)
    then have "(of_int (2 ^ 52) :: rat) \<le> of_int m" by (simp only: of_int_le_iff)
    then have m52: "(2 ^ 52 :: rat) \<le> of_int m" by simp
    have "(2 ^ 52 :: rat) * 2 \<le> of_int m * P"
      using m52 P2 by (intro mult_mono) simp_all
    moreover have "(of_int k :: rat) < of_int (2 ^ 53)" using k(2) by (simp only: of_int_less_iff)
    ultimately show ?thesis by (simp add: fl)
  qed
qed

lemma fl64_le_int:
  assumes x0: "0 \<le> x" and xk: "x \<le> of_int k" and k: "k < 2 ^ 53"
  shows "fl64 x \<le> of_int k"
proof (cases "x = 0")
  case True
  with xk show ?thesis by (simp add: fl64_def)
next
  case False
  with x0 have x: "0 < x" by simp
  define e where "e = ilog2 x - 52"
  define P :: rat where "P = 2 powi e"
  define y where "y = x / P"
  define m where "m = py_round y"
  have P: "0 < P" by (simp add: P_def)
  have fl: "fl64 x = of_int m * P" using fl64_pos(1) [OF x] by (simp add: m_def y_def P_def e_def)
  have "(of_int k :: rat) < of_int (2 ^ 53)" using k by (simp only: of_int_less_iff)
  then have k53: "(of_int k :: rat) < 2 ^ 53" by simp
  have "(2::rat) powi ilog2 x \<le> x" using ilog2_bounds [OF x] by blast
  also have "x < 2 powi 53" using xk k53 by simp
  finally have "ilog2 x < 53" by (rule power_int_le_imp_less_exp [rotated]) simp_all
  then have e0: "e \<le> 0" by (simp add: e_def)
  define n where "n = nat (- e)"
  have c: "P * 2 ^ n = 1" using powi_cancel [OF e0] by (simp add: P_def n_def)
  then have Pinv: "1 / P = 2 ^ n" using P by (simp add: field_simps)
  have "y = x * (1 / P)" by (simp add: y_def)
  also have "\<dots> \<le> of_int k * (1 / P)" using xk P by (intro mult_right_mono) simp_all
  also have "\<dots> = of_int (k * 2 ^ n)" by (simp add: Pinv)
  finally have "m \<le> k * 2 ^ n" unfolding m_def by (rule py_round_upper)
  then have "(of_int m :: rat) \<le> of_int (k * 2 ^ n)" by (simp only: of_int_le_iff)
  then have "of_int m * P \<le> of_int (k * 2 ^ n) * P" using P by (intro mult_right_mono) simp_all
  moreover have "of_int (k * 2 ^ n) * P = of_int k * (P * 2 ^ n)" by (simp add: mult_ac)
  ultimately show ?thesis by (simp only: fl c mult_1_right)
qed

lemma fl64_of_int:
  assumes "0 \<le> k" "k < 2 ^ 53"
  shows "fl64 (of_int k) = of_int k"
proof (rule antisym)
  show "fl64 (of_int k) \<le> of_int k" using assms by (intro fl64_le_int) simp_all
  show "of_int k \<le> fl64 (of_int k)" using assms by (intro fl64_ge_int) simp_all
qed

lemma fl64_gt0:
  assumes "0 < x"
  shows "0 < fl64 x"
proof -
  have "x / 2 ^ 53 < x" using assms by (simp add: divide_less_eq)
  with fl64_err [of x] assms show ?thesis by linarith
qed

subsection \<open>The points of \<open>linspace\<close>\<close>

text \<open>
  For frame ids from 0 up to \<open>2 ^ 31 - 1\<close> and at most \<open>2 ^ 20 + 1\<close> points, the
  double computed for point \<open>i\<close> is within \<open>3 / 2 ^ 22\<close> of the exact point
  \<open>lo + i * (hi - lo) / (n - 1)\<close>, which is less than the distance \<open>1 / (n - 1)\<close> of
  an exact point that is no integer from the integers around it. So the point rounded
  down is the exact point rounded down, except that an exact point that is an integer
  may come out one lower.
\<close>

lemma int32_id: "- (2 ^ 31) \<le> v \<Longrightarrow> v < 2 ^ 31 \<Longrightarrow> int32 v = v"
  by (simp add: int32_def)

lemma fl64_err31:
  assumes "0 \<le> t" "t \<le> 2 ^ 31"
  shows "\<bar>fl64 t - t\<bar> \<le> 1 / 2 ^ 22"
proof -
  have "t / 2 ^ 53 \<le> 2 ^ 31 / 2 ^ 53" using assms(2) by (intro divide_right_mono) simp_all
  also have "\<dots> = 1 / 2 ^ 22" by simp
  finally show ?thesis using fl64_err [OF assms(1)] by linarith
qed

lemma floor_near:
  fixes y :: rat and E0 q m :: int
  assumes m: "0 < m"
    and y: "\<bar>y - (of_int E0 + of_int q / of_int m)\<bar> < 1 / of_int m"
  shows "\<lfloor>y\<rfloor> = E0 + q div m \<or> (\<lfloor>y\<rfloor> = E0 + q div m - 1 \<and> m dvd q)"
proof -
  define k where "k = q div m"
  define r where "r = q mod m"
  define t :: rat where "t = 1 / of_int m"
  have r: "0 \<le> r" "r < m" using m by (simp_all add: r_def)
  have t: "0 < t" "t \<le> 1" "of_int m * t = 1" using m by (simp_all add: t_def)
  have "q = k * m + r" by (simp add: k_def r_def)
  then have "(of_int q :: rat) = of_int k * of_int m + of_int r" by (simp flip: of_int_mult of_int_add)
  then have qt: "(of_int q :: rat) * t = of_int k * (of_int m * t) + of_int r * t"
    by (simp add: algebra_simps)
  have "(of_int q :: rat) / of_int m = of_int q * t" by (simp add: t_def)
  also note qt
  also have "of_int k * (of_int m * t) + of_int r * t = of_int k + of_int r * t"
    by (simp only: t(3) mult_1_right)
  finally have q: "(of_int q :: rat) / of_int m = of_int k + of_int r * t" .
  from y have y': "\<bar>y - (of_int E0 + of_int k + of_int r * t)\<bar> < t"
    by (simp add: q t_def add.assoc)
  show ?thesis
  proof (cases "r = 0")
    case True
    with y' have y0: "\<bar>y - (of_int E0 + of_int k)\<bar> < t" by simp
    have "of_int E0 + of_int k - 1 \<le> y" using y0 t(2) by linarith
    then have "of_int (E0 + k - 1) \<le> y" by simp
    then have "E0 + k - 1 \<le> \<lfloor>y\<rfloor>" by (simp only: le_floor_iff)
    moreover have "y < of_int E0 + of_int k + 1" using y0 t(2) by linarith
    then have "y < of_int (E0 + k + 1)" by simp
    then have "\<lfloor>y\<rfloor> < E0 + k + 1" by (simp only: floor_less_iff)
    moreover from True have "m dvd q" by (simp add: r_def mod_eq_0_iff_dvd)
    ultimately show ?thesis unfolding k_def by auto
  next
    case False
    with r have "1 \<le> r" "r \<le> m - 1" by simp_all
    then have "(of_int 1 :: rat) \<le> of_int r" "(of_int r :: rat) \<le> of_int (m - 1)"
      by (simp_all only: of_int_le_iff)
    then have r1: "(1::rat) \<le> of_int r" and r2: "(of_int r :: rat) \<le> of_int m - 1"
      by simp_all
    have "1 * t \<le> of_int r * t" using r1 t(1) by (intro mult_right_mono) simp_all
    moreover have "of_int r * t \<le> (of_int m - 1) * t"
      using r2 t(1) by (intro mult_right_mono) simp_all
    moreover have "(of_int m - 1) * t = 1 - t" using t(3) by (simp add: algebra_simps)
    ultimately have "t \<le> of_int r * t" "of_int r * t \<le> 1 - t" by simp_all
    then have "of_int E0 + of_int k \<le> y" "y < of_int E0 + of_int k + 1"
      using y' by linarith+
    then have "of_int (E0 + k) \<le> y" "y < of_int (E0 + k) + 1" by simp_all
    then have "\<lfloor>y\<rfloor> = E0 + k" by (intro floor_unique)
    then show ?thesis by (simp add: k_def)
  qed
qed


lemma fl64_of_nat:
  assumes "k < 2 ^ 53"
  shows "fl64 (of_nat k) = of_nat k"
proof -
  have "int k < int (2 ^ 53)" using assms by (simp only: of_nat_less_iff)
  then have "int k < 2 ^ 53" by simp
  then have "fl64 (of_int (int k)) = of_int (int k)" by (intro fl64_of_int) simp_all
  then show ?thesis by simp
qed

lemma linspace_inner:
  fixes lo d :: int and m i :: nat
  assumes lo: "0 \<le> lo" and d: "0 < d" and hi: "lo + d < 2 ^ 31"
    and m: "m \<le> 2 ^ 20" and i: "i < m"
  shows "of_int lo \<le> fl64 (fl64 (of_nat i * fl64 (of_int d / of_nat m)) + of_int lo)"
    and "\<bar>fl64 (fl64 (of_nat i * fl64 (of_int d / of_nat m)) + of_int lo)
           - (of_int lo + of_int (int i * d) / of_int (int m))\<bar> < 1 / of_int (int m)"
proof -
  define y where "y = fl64 (fl64 (of_nat i * fl64 (of_int d / of_nat m)) + of_int lo)"
  define M :: rat where "M = of_nat m"
  define D :: rat where "D = of_int d"
  define L :: rat where "L = of_int lo"
  define I :: rat where "I = of_nat i"
  define s where "s = fl64 (D / M)"
  define X where "X = I * (D / M)"
  define a where "a = I * s"
  define b where "b = fl64 a"
  define c where "c = b + L"
  define T :: rat where "T = 2 ^ 31"
  define eps :: rat where "eps = 1 / 2 ^ 22"
  have eps: "0 < eps" "3 * eps \<le> 1" by (simp_all add: eps_def)
  have err: "\<bar>fl64 t - t\<bar> \<le> eps" if "0 \<le> t" "t \<le> T" for t
    using fl64_err31 [of t] that by (simp add: eps_def T_def)
  have y: "y = fl64 c" by (simp add: y_def c_def b_def a_def s_def I_def D_def M_def L_def)
  have M: "0 < M" using i by (simp add: M_def)
  have "int m \<le> int (2 ^ 20)" using m by (simp only: of_nat_le_iff)
  then have "int m \<le> 2 ^ 20" by simp
  then have "(of_int (int m) :: rat) \<le> of_int (2 ^ 20)" by (simp only: of_int_le_iff)
  then have M20: "M \<le> 2 ^ 20" by (simp add: M_def)
  have D: "0 < D" using d by (simp add: D_def)
  have L: "0 \<le> L" using lo by (simp add: L_def)
  from hi have "lo + d \<le> 2 ^ 31 - 1" by simp
  then have "(of_int (lo + d) :: rat) \<le> of_int (2 ^ 31 - 1)" by (simp only: of_int_le_iff)
  then have LD: "L + D \<le> T - 1" by (simp add: L_def D_def T_def)
  have I0: "0 \<le> I" by (simp add: I_def)
  from i have "i + 1 \<le> m" by simp
  then have "(of_nat (i + 1) :: rat) \<le> of_nat m" by (simp only: of_nat_le_iff)
  then have IM: "I \<le> M - 1" by (simp add: I_def M_def)
  have DM: "0 < D / M" using D M by simp
  have X0: "0 \<le> X" unfolding X_def using I0 DM by (intro mult_nonneg_nonneg) simp_all
  have "X \<le> (M - 1) * (D / M)" unfolding X_def using IM DM by (intro mult_right_mono) simp_all
  also have "\<dots> = D - D / M" using M by (simp add: field_simps)
  finally have XD: "X \<le> D" using DM by linarith
  have XT: "X \<le> T" using XD LD L by linarith
  have s: "\<bar>s - D / M\<bar> \<le> (D / M) / 2 ^ 53"
    unfolding s_def using DM by (intro fl64_err) simp
  have "a - X = I * (s - D / M)" by (simp add: a_def X_def algebra_simps)
  then have "\<bar>a - X\<bar> = I * \<bar>s - D / M\<bar>" using I0 by (simp add: abs_mult)
  also have "\<dots> \<le> I * ((D / M) / 2 ^ 53)" using s I0 by (intro mult_left_mono)
  also have "\<dots> = X / 2 ^ 53" by (simp add: X_def)
  also have "\<dots> \<le> T / 2 ^ 53" using XT by (intro divide_right_mono) simp_all
  also have "\<dots> = eps" by (simp add: T_def eps_def)
  finally have aX: "\<bar>a - X\<bar> \<le> eps" .
  have s0: "0 \<le> s" unfolding s_def using DM by (intro fl64_nonneg) simp
  have a0: "0 \<le> a" unfolding a_def using I0 s0 by (intro mult_nonneg_nonneg)
  have aT: "a \<le> T" using aX XD LD L eps by linarith
  have ba: "\<bar>b - a\<bar> \<le> eps" unfolding b_def using a0 aT by (rule err)
  have b0: "0 \<le> b" unfolding b_def using a0 by (rule fl64_nonneg)
  have c0: "0 \<le> c" using b0 L by (simp add: c_def)
  have cL: "L \<le> c" using b0 by (simp add: c_def)
  have cT: "c \<le> T" using ba aX XD LD eps unfolding c_def by linarith
  have yc: "\<bar>y - c\<bar> \<le> eps" unfolding y using c0 cT by (rule err)
  have "of_int lo \<le> fl64 c"
  proof (rule fl64_ge_int)
    show "0 \<le> lo" by (rule lo)
    show "lo < 2 ^ 53" using hi d by simp
    show "of_int lo \<le> c" using cL by (simp add: L_def)
  qed
  then show "of_int lo \<le> fl64 (fl64 (of_nat i * fl64 (of_int d / of_nat m)) + of_int lo)"
    by (simp add: y flip: y_def)
  have "\<bar>y - (L + X)\<bar> \<le> 3 * eps" using yc ba aX unfolding c_def by linarith
  also have "\<dots> < (1 :: rat) / 2 ^ 20" by (simp add: eps_def)
  also have "\<dots> \<le> 1 / M" using M M20 by (intro divide_left_mono) simp_all
  finally have "\<bar>y - (L + X)\<bar> < 1 / M" .
  moreover have "X = of_int (int i * d) / of_int (int m)" by (simp add: X_def I_def D_def M_def)
  ultimately have "\<bar>y - (of_int lo + of_int (int i * d) / of_int (int m))\<bar> < 1 / of_int (int m)"
    by (simp add: L_def M_def)
  then show "\<bar>fl64 (fl64 (of_nat i * fl64 (of_int d / of_nat m)) + of_int lo)
           - (of_int lo + of_int (int i * d) / of_int (int m))\<bar> < 1 / of_int (int m)"
    by (simp only: y_def)
qed


lemma length_linspace: "length (linspace lo hi n) = n"
  by (simp add: linspace_def Let_def)

lemma linspace_1:
  assumes "0 \<le> lo" "lo < 2 ^ 31"
  shows "linspace lo hi 1 = [lo]"
proof -
  have "fl64 (of_int lo) = of_int lo" using assms by (intro fl64_of_int) simp_all
  moreover have "fl64 0 = 0" by (simp add: fl64_def)
  moreover have "int32 lo = lo" using assms by (intro int32_id) simp_all
  ultimately show ?thesis by (simp add: linspace_def Let_def)
qed

lemma linspace_point:
  assumes lo: "0 \<le> lo" and lh: "lo \<le> hi" and hi: "hi < 2 ^ 31"
    and m: "0 < m" "m \<le> 2 ^ 20" and i: "i \<le> m"
  shows "linspace lo hi (Suc m) ! i =
      int32 \<lfloor>if i = m then of_int hi
             else fl64 ((if fl64 (of_int (hi - lo) / of_nat m) = 0
                         then fl64 (fl64 (of_nat i / of_nat m) * of_int (hi - lo))
                         else fl64 (of_nat i * fl64 (of_int (hi - lo) / of_nat m))) + of_int lo)\<rfloor>"
proof -
  have sS: "fl64 (of_int lo) = of_int lo" using lo lh hi by (intro fl64_of_int) simp_all
  have sE: "fl64 (of_int hi) = of_int hi" using lo lh hi by (intro fl64_of_int) simp_all
  have "fl64 (of_int (hi - lo)) = of_int (hi - lo)" using lo lh hi by (intro fl64_of_int) simp_all
  then have sD: "fl64 (of_int hi - of_int lo) = of_int hi - of_int lo" by simp
  have sM: "fl64 (of_nat m) = of_nat m" using m(2) by (intro fl64_of_nat) simp
  have sI: "fl64 (of_nat i) = of_nat i" using m(2) i by (intro fl64_of_nat) simp
  show ?thesis
    using m(1) i by (simp add: linspace_def Let_def sS sE sD sM sI del: upt_Suc)
qed

lemma nth_linspace:
  assumes lo: "0 \<le> lo" and lh: "lo \<le> hi" and hi: "hi < 2 ^ 31"
    and n: "2 \<le> n" "n - 1 \<le> 2 ^ 20" and i: "i < n"
  shows "lo \<le> linspace lo hi n ! i"
    and "linspace lo hi n ! i = lo + (int i * (hi - lo)) div int (n - 1) \<or>
         (linspace lo hi n ! i = lo + (int i * (hi - lo)) div int (n - 1) - 1 \<and>
          int (n - 1) dvd int i * (hi - lo))"
proof -
  define m where "m = n - 1"
  define d where "d = hi - lo"
  define step where "step = fl64 (of_int d / of_nat m)"
  define E where "E = lo + (int i * d) div int m"
  have m: "0 < m" "m \<le> 2 ^ 20" "i \<le> m" using n i by (simp_all add: m_def)
  have d0: "0 \<le> d" using lh by (simp add: d_def)
  have s0: "fl64 0 = 0" by (simp add: fl64_def)
  have sS: "fl64 (of_int lo) = of_int lo" using lo lh hi by (intro fl64_of_int) simp_all
  have nS: "n = Suc m" using n by (simp add: m_def)
  have expr: "linspace lo hi n ! i =
      int32 \<lfloor>if i = m then of_int hi
             else fl64 ((if step = 0 then fl64 (fl64 (of_nat i / of_nat m) * of_int d)
                         else fl64 (of_nat i * step)) + of_int lo)\<rfloor>"
    unfolding nS step_def d_def by (rule linspace_point [OF lo lh hi m])
  have Ehi: "E \<le> hi"
  proof -
    have "int i * d \<le> int m * d" using m(3) d0 by (intro mult_right_mono) simp_all
    then have "(int i * d) div int m \<le> (int m * d) div int m" by (rule zdiv_mono1) (use m(1) in simp)
    then show ?thesis using m(1) by (simp add: E_def d_def)
  qed
  have res: "lo \<le> linspace lo hi n ! i \<and>
      (linspace lo hi n ! i = E \<or> (linspace lo hi n ! i = E - 1 \<and> int m dvd int i * d))"
  proof (cases "i = m")
    case True
    have "E = hi" using m(1) by (simp add: E_def True d_def)
    moreover have "int32 hi = hi" using lo lh hi by (intro int32_id) simp_all
    ultimately show ?thesis unfolding expr using lh True by simp
  next
    case False
    with m(3) have im: "i < m" by simp
    show ?thesis
    proof (cases "d = 0")
      case True
      have "step = 0" by (simp add: step_def True s0)
      moreover have "int32 lo = lo" using lo lh hi by (intro int32_id) simp_all
      ultimately show ?thesis using False by (simp add: expr True s0 sS E_def)
    next
      case dpos: False
      with d0 have d: "0 < d" by simp
      define y where "y = fl64 (fl64 (of_nat i * step) + of_int lo)"
      have "0 < of_int d / (of_nat m :: rat)" using d m(1) by simp
      then have "0 < step" unfolding step_def by (rule fl64_gt0)
      then have ex: "linspace lo hi n ! i = int32 \<lfloor>y\<rfloor>" using False by (simp add: expr y_def)
      have hi': "lo + d < 2 ^ 31" using hi by (simp add: d_def)
      have ylo: "of_int lo \<le> y"
        unfolding y_def step_def by (rule linspace_inner(1) [OF lo d hi' m(2) im])
      have ynear: "\<bar>y - (of_int lo + of_int (int i * d) / of_int (int m))\<bar> < 1 / of_int (int m)"
        unfolding y_def step_def by (rule linspace_inner(2) [OF lo d hi' m(2) im])
      have fl: "lo \<le> \<lfloor>y\<rfloor>" using ylo by (simp add: le_floor_iff)
      have "0 < int m" using m(1) by simp
      from floor_near [OF this ynear]
      have cases: "\<lfloor>y\<rfloor> = E \<or> (\<lfloor>y\<rfloor> = E - 1 \<and> int m dvd int i * d)" by (simp add: E_def)
      define z where "z = \<lfloor>y\<rfloor>"
      from cases have "z \<le> hi" using Ehi by (auto simp add: z_def)
      moreover have "lo \<le> z" using fl by (simp only: z_def)
      ultimately have "int32 z = z" using lo hi by (intro int32_id) simp_all
      with ex fl cases show ?thesis by (simp add: z_def)
    qed
  qed
  from res show "lo \<le> linspace lo hi n ! i" by blast
  from res show "linspace lo hi n ! i = lo + (int i * (hi - lo)) div int (n - 1) \<or>
         (linspace lo hi n ! i = lo + (int i * (hi - lo)) div int (n - 1) - 1 \<and>
          int (n - 1) dvd int i * (hi - lo))"
    by (simp add: E_def m_def d_def)
qed

lemma linspace_upper:
  assumes lo: "0 \<le> lo" and lh: "lo \<le> hi" and hi: "hi < 2 ^ 31"
    and n: "2 \<le> n" "n - 1 \<le> 2 ^ 20" and i: "i < n"
  shows "linspace lo hi n ! i \<le> hi"
proof -
  have m: "0 < int (n - 1)" and le: "int i \<le> int (n - 1)" using n i by simp_all
  from lh have d: "0 \<le> hi - lo" by simp
  from le d have "int i * (hi - lo) \<le> int (n - 1) * (hi - lo)" by (rule mult_right_mono)
  from this m have "(int i * (hi - lo)) div int (n - 1) \<le> (int (n - 1) * (hi - lo)) div int (n - 1)"
    by (rule zdiv_mono1)
  also from m have "\<dots> = hi - lo" by simp
  finally have "(int i * (hi - lo)) div int (n - 1) \<le> hi - lo" .
  with nth_linspace(2) [OF lo lh hi n i] show ?thesis by auto
qed

lemma linspace_ends:
  assumes lo: "0 \<le> lo" and lh: "lo \<le> hi" and hi: "hi < 2 ^ 31"
    and n: "2 \<le> n" "n - 1 \<le> 2 ^ 20"
  shows "linspace lo hi n ! 0 = lo" and "linspace lo hi n ! (n - 1) = hi"
proof -
  from n have z: "0 < n" by simp
  from nth_linspace [OF lo lh hi n z] show "linspace lo hi n ! 0 = lo" by auto
  from n have l: "n - 1 < n" by simp
  have "lo + (int (n - 1) * (hi - lo)) div int (n - 1) = hi" using n by simp
  with nth_linspace(2) [OF lo lh hi n l] linspace_upper [OF lo lh hi n l]
  have "linspace lo hi n ! (n - 1) = hi \<or> linspace lo hi n ! (n - 1) = hi - 1" by auto
  moreover have "linspace lo hi n ! (n - 1) = int32 \<lfloor>(of_int hi :: rat)\<rfloor>"
  proof -
    from n have nS: "n = Suc (n - 1)" by simp
    have "linspace lo hi (Suc (n - 1)) ! (n - 1) = int32 \<lfloor>(of_int hi :: rat)\<rfloor>"
      using n by (subst linspace_point [OF lo lh hi]) simp_all
    then show ?thesis using nS by simp
  qed
  moreover have "int32 hi = hi" using lo lh hi by (intro int32_id) simp_all
  ultimately show "linspace lo hi n ! (n - 1) = hi" by simp
qed

lemma linspace_example: "linspace 1 31 23 ! 11 = 15"
proof -
  have "linspace 1 31 (Suc 22) ! 11 =
      int32 \<lfloor>if (11::nat) = 22 then of_int 31
             else fl64 ((if fl64 (of_int (31 - 1) / of_nat 22) = 0
                         then fl64 (fl64 (of_nat 11 / of_nat 22) * of_int (31 - 1))
                         else fl64 (of_nat 11 * fl64 (of_int (31 - 1) / of_nat 22))) + of_int 1)\<rfloor>"
    by (rule linspace_point) simp_all
  also have "\<dots> = 15" by code_simp
  finally show ?thesis by simp
qed

lemma skipped_sample: "0 < num_frame a \<Longrightarrow> skipped a sids fid \<longleftrightarrow> fid \<notin> set sids"
  by (simp add: skipped_def)

lemma length_filter_distinct_le:
  assumes "distinct (map g xs)"
  shows "length (filter (\<lambda>x. g x \<in> set ys) xs) \<le> length ys"
proof -
  let ?sel = "filter (\<lambda>x. g x \<in> set ys) xs"
  from assms have "distinct (map g ?sel)" by (rule distinct_map_filter)
  then have "length ?sel = card (set (map g ?sel))"
    by (metis distinct_card length_map)
  also have "\<dots> \<le> card (set ys)"
    by (rule card_mono) auto
  also have "\<dots> \<le> length ys" by (rule card_length)
  finally show ?thesis .
qed

lemma filter_the_one:
  assumes "distinct (map g xs)" and "y \<in> g ` set xs"
  shows "map g (filter (\<lambda>x. g x = y) xs) = [y]"
  using assms
proof (induction xs)
  case Nil
  then show ?case by simp
next
  case (Cons x xs)
  show ?case
  proof (cases "g x = y")
    case True
    with Cons.prems(1) have "y \<notin> g ` set xs" by simp
    then have "\<forall>z\<in>set xs. g z \<noteq> y" by blast
    then have "filter (\<lambda>x. g x = y) xs = []" by (simp add: filter_empty_conv)
    with True show ?thesis by simp
  next
    case False
    with Cons show ?thesis by auto
  qed
qed


lemma map_fst_pairs: "map fst (pairs xs) = map f_id xs"
  by (simp add: pairs_def)

text \<open>
  C4 (uniform count), as the code has it. With \<^verbatim>\<open>num_frame = n > 0\<close>, a non-empty
  frame directory and no duplicate filtering, the sample ids are the \<open>n\<close> values of
  \<open>linspace\<close> from the minimum id \<open>lo\<close> to the maximum id \<open>hi\<close>, and the retained
  files are exactly those whose id is among them, so with distinct ids at most \<open>n\<close>
  are retained. For ids from 0 up to \<open>2 ^ 31 - 1\<close> and \<open>n \<le> 2 ^ 20 + 1\<close>: every value
  lies from \<open>lo\<close> to \<open>hi\<close>, the first is \<open>lo\<close> and the last is \<open>hi\<close>; value \<open>i\<close>
  is the exact point \<open>lo + i * (hi - lo) / (n - 1)\<close> rounded \<^emph>\<open>down\<close>, that is
  \<open>lo + (i * (hi - lo)) div (n - 1)\<close>, or, only when the exact point is an integer,
  possibly one less (the point is computed in doubles); with \<open>n = 1\<close> exactly the
  minimum id is retained; and when the ids are the contiguous range from \<open>lo\<close> to
  \<open>hi\<close>, every value of the spaced selection is retained.
\<close>

theorem C4_uniform_count:
  assumes n: "num_frame a = int n" and pos: "0 < n" and ne: "fs \<noteq> []"
    and nd: "no_duplicates a \<le> 0"
    and lo: "lo = Min (set (map f_id fs))" and hi: "hi = Max (set (map f_id fs))"
  shows "sample_ids a (map f_id fs) = Inr (linspace lo hi n)
    \<and> length (linspace lo hi n) = n
    \<and> frame_files (frame_loop H a (linspace lo hi n) fs loop0)
        = pairs (filter (\<lambda>f. f_id f \<in> set (linspace lo hi n)) fs)
    \<and> (\<exists>s'. select_frames H a fs = Inr s'
          \<and> frame_files s' = sort (pairs (filter (\<lambda>f. f_id f \<in> set (linspace lo hi n)) fs)))
    \<and> (distinct (map f_id fs) \<longrightarrow>
          length (frame_files (frame_loop H a (linspace lo hi n) fs loop0)) \<le> n)
    \<and> (0 \<le> lo \<and> hi < 2 ^ 31 \<and> n - 1 \<le> 2 ^ 20 \<longrightarrow>
          (\<forall>i<n. lo \<le> linspace lo hi n ! i \<and> linspace lo hi n ! i \<le> hi
             \<and> (2 \<le> n \<longrightarrow>
                  linspace lo hi n ! i = lo + (int i * (hi - lo)) div int (n - 1)
                  \<or> (linspace lo hi n ! i = lo + (int i * (hi - lo)) div int (n - 1) - 1
                      \<and> int (n - 1) dvd int i * (hi - lo))))
        \<and> linspace lo hi n ! 0 = lo
        \<and> linspace lo hi n ! (n - 1) = (if n = 1 then lo else hi)
        \<and> (distinct (map f_id fs) \<and> n = 1 \<longrightarrow>
              map fst (frame_files (frame_loop H a (linspace lo hi n) fs loop0)) = [lo])
        \<and> (set (map f_id fs) = {lo..hi} \<longrightarrow>
              set (map fst (frame_files (frame_loop H a (linspace lo hi n) fs loop0)))
                = set (linspace lo hi n)))"
proof -
  let ?L = "linspace lo hi n"
  let ?sel = "filter (\<lambda>f. f_id f \<in> set ?L) fs"
  from n pos have np: "0 < num_frame a" by simp
  from n have nn: "nat (num_frame a) = n" by simp
  have 1: "sample_ids a (map f_id fs) = Inr ?L"
    using np nn ne lo hi by (simp add: sample_ids_def)
  have 2: "length ?L = n" by (rule length_linspace)
  have keep: "(\<lambda>f. \<not> skipped a ?L (f_id f)) = (\<lambda>f. f_id f \<in> set ?L)"
    using skipped_sample [OF np] by simp
  have 3: "frame_files (frame_loop H a ?L fs loop0) = pairs ?sel"
    using frame_loop_no_dedup [OF nd, of H ?L fs loop0] by (simp add: keep loop0_def)
  have 4: "\<exists>s'. select_frames H a fs = Inr s' \<and> frame_files s' = sort (pairs ?sel)"
    using 1 3 by (simp add: select_frames_def)
  have 5: "length (frame_files (frame_loop H a ?L fs loop0)) \<le> n" if "distinct (map f_id fs)"
    using length_filter_distinct_le [OF that, of ?L] 2 3 by (simp add: pairs_def)
  have fin: "finite (set (map f_id fs))" and nonempty: "set (map f_id fs) \<noteq> {}"
    using ne by simp_all
  have lo_in: "lo \<in> f_id ` set fs"
    using Min_in [OF fin nonempty] lo by simp
  have le: "lo \<le> hi"
    using Min_le [OF fin, of lo] Max_ge [OF fin, of lo] lo_in lo hi by simp
  have 6: "(\<forall>i<n. lo \<le> ?L ! i \<and> ?L ! i \<le> hi
             \<and> (2 \<le> n \<longrightarrow>
                  ?L ! i = lo + (int i * (hi - lo)) div int (n - 1)
                  \<or> (?L ! i = lo + (int i * (hi - lo)) div int (n - 1) - 1
                      \<and> int (n - 1) dvd int i * (hi - lo))))
        \<and> ?L ! 0 = lo
        \<and> ?L ! (n - 1) = (if n = 1 then lo else hi)
        \<and> (distinct (map f_id fs) \<and> n = 1 \<longrightarrow>
              map fst (frame_files (frame_loop H a ?L fs loop0)) = [lo])
        \<and> (set (map f_id fs) = {lo..hi} \<longrightarrow>
              set (map fst (frame_files (frame_loop H a ?L fs loop0))) = set ?L)"
    if range: "0 \<le> lo \<and> hi < 2 ^ 31 \<and> n - 1 \<le> 2 ^ 20"
  proof -
    from range have l0: "0 \<le> lo" and h31: "hi < 2 ^ 31" and small: "n - 1 \<le> 2 ^ 20"
      by simp_all
    from le h31 have l31: "lo < 2 ^ 31" by simp
    have one: "?L = [lo]" if "n = 1" using that linspace_1 [OF l0 l31, of hi] by simp
    have pt: "lo \<le> ?L ! i \<and> ?L ! i \<le> hi
             \<and> (2 \<le> n \<longrightarrow>
                  ?L ! i = lo + (int i * (hi - lo)) div int (n - 1)
                  \<or> (?L ! i = lo + (int i * (hi - lo)) div int (n - 1) - 1
                      \<and> int (n - 1) dvd int i * (hi - lo)))" if i: "i < n" for i
    proof (cases "n = 1")
      case True
      with i le one show ?thesis by simp
    next
      case False
      with pos have n2: "2 \<le> n" by simp
      from nth_linspace [OF l0 le h31 n2 small i] linspace_upper [OF l0 le h31 n2 small i]
      show ?thesis by blast
    qed
    have a: "\<forall>i<n. lo \<le> ?L ! i \<and> ?L ! i \<le> hi
             \<and> (2 \<le> n \<longrightarrow>
                  ?L ! i = lo + (int i * (hi - lo)) div int (n - 1)
                  \<or> (?L ! i = lo + (int i * (hi - lo)) div int (n - 1) - 1
                      \<and> int (n - 1) dvd int i * (hi - lo)))"
      using pt by blast
    have b: "?L ! 0 = lo \<and> ?L ! (n - 1) = (if n = 1 then lo else hi)"
    proof (cases "n = 1")
      case True
      with one show ?thesis by simp
    next
      case False
      with pos have n2: "2 \<le> n" by simp
      from linspace_ends [OF l0 le h31 n2 small] False show ?thesis by simp
    qed
    have c: "map fst (frame_files (frame_loop H a ?L fs loop0)) = [lo]"
      if "distinct (map f_id fs) \<and> n = 1"
    proof -
      from that have d: "distinct (map f_id fs)" and n1: "n = 1" by simp_all
      have "?sel = filter (\<lambda>f. f_id f = lo) fs" using one [OF n1] by simp
      with filter_the_one [OF d lo_in] 3 show ?thesis by (simp add: map_fst_pairs)
    qed
    have d: "set (map fst (frame_files (frame_loop H a ?L fs loop0))) = set ?L"
      if c: "set (map f_id fs) = {lo..hi}"
    proof -
      have "set ?L \<subseteq> {lo..hi}"
      proof
        fix x assume "x \<in> set ?L"
        then obtain i where "i < n" and "x = ?L ! i"
          by (auto simp add: in_set_conv_nth length_linspace)
        with pt show "x \<in> {lo..hi}" by simp
      qed
      with c have "set ?L \<subseteq> f_id ` set fs" by simp
      then have "f_id ` {f \<in> set fs. f_id f \<in> set ?L} = set ?L" by auto
      with 3 show ?thesis by (simp add: map_fst_pairs)
    qed
    from a b c d show ?thesis by blast
  qed
  from 1 2 3 4 5 6 show ?thesis by blast
qed

theorem C4_uniform_count_witness:
  "(\<exists>s'. select_frames (\<lambda>b n. []) \<lparr>skip = 1, num_frame = 3, interval = 0, no_duplicates = 0, hash_size = 8\<rparr>
       [\<lparr>f_id = 3, f_name = ''3.jpg'', f_data = ''c''\<rparr>, \<lparr>f_id = 1, f_name = ''1.jpg'', f_data = ''a''\<rparr>,
        \<lparr>f_id = 2, f_name = ''2.jpg'', f_data = ''b''\<rparr>, \<lparr>f_id = 4, f_name = ''4.jpg'', f_data = ''d''\<rparr>,
        \<lparr>f_id = 5, f_name = ''5.jpg'', f_data = ''e''\<rparr>] = Inr s'
      \<and> frame_files s' = [(1, ''1.jpg''), (3, ''3.jpg''), (5, ''5.jpg'')])
   \<and> length (frame_files (frame_loop (\<lambda>b n. []) \<lparr>skip = 1, num_frame = 3, interval = 0, no_duplicates = 0, hash_size = 8\<rparr> (linspace 1 5 3)
       [\<lparr>f_id = 3, f_name = ''3.jpg'', f_data = ''c''\<rparr>, \<lparr>f_id = 1, f_name = ''1.jpg'', f_data = ''a''\<rparr>,
        \<lparr>f_id = 2, f_name = ''2.jpg'', f_data = ''b''\<rparr>, \<lparr>f_id = 4, f_name = ''4.jpg'', f_data = ''d''\<rparr>,
        \<lparr>f_id = 5, f_name = ''5.jpg'', f_data = ''e''\<rparr>] loop0)) \<le> 3
   \<and> set (map fst (frame_files (frame_loop (\<lambda>b n. []) \<lparr>skip = 1, num_frame = 3, interval = 0, no_duplicates = 0, hash_size = 8\<rparr> (linspace 1 5 3)
       [\<lparr>f_id = 3, f_name = ''3.jpg'', f_data = ''c''\<rparr>, \<lparr>f_id = 1, f_name = ''1.jpg'', f_data = ''a''\<rparr>,
        \<lparr>f_id = 2, f_name = ''2.jpg'', f_data = ''b''\<rparr>, \<lparr>f_id = 4, f_name = ''4.jpg'', f_data = ''d''\<rparr>,
        \<lparr>f_id = 5, f_name = ''5.jpg'', f_data = ''e''\<rparr>] loop0))) = {1, 3, 5}
   \<and> map fst (frame_files (frame_loop (\<lambda>b n. []) \<lparr>skip = 1, num_frame = 1, interval = 0, no_duplicates = 0, hash_size = 8\<rparr> (linspace 1 5 1)
       [\<lparr>f_id = 3, f_name = ''3.jpg'', f_data = ''c''\<rparr>, \<lparr>f_id = 1, f_name = ''1.jpg'', f_data = ''a''\<rparr>,
        \<lparr>f_id = 2, f_name = ''2.jpg'', f_data = ''b''\<rparr>, \<lparr>f_id = 4, f_name = ''4.jpg'', f_data = ''d''\<rparr>,
        \<lparr>f_id = 5, f_name = ''5.jpg'', f_data = ''e''\<rparr>] loop0)) = [1]"
proof -
  let ?H = "\<lambda>(b :: bytes) (n :: int). [] :: hash"
  let ?a3 = "\<lparr>skip = 1, num_frame = 3, interval = 0, no_duplicates = 0, hash_size = 8\<rparr>"
  let ?a1 = "\<lparr>skip = 1, num_frame = 1, interval = 0, no_duplicates = 0, hash_size = 8\<rparr>"
  let ?fs = "[\<lparr>f_id = 3, f_name = ''3.jpg'', f_data = ''c''\<rparr>, \<lparr>f_id = 1, f_name = ''1.jpg'', f_data = ''a''\<rparr>,
        \<lparr>f_id = 2, f_name = ''2.jpg'', f_data = ''b''\<rparr>, \<lparr>f_id = 4, f_name = ''4.jpg'', f_data = ''d''\<rparr>,
        \<lparr>f_id = 5, f_name = ''5.jpg'', f_data = ''e''\<rparr>]"
  have ne: "?fs \<noteq> []" by simp
  have lo: "(1::int) = Min (set (map f_id ?fs))" and hi: "(5::int) = Max (set (map f_id ?fs))"
    by simp_all
  have d: "distinct (map f_id ?fs)" by simp
  have c: "set (map f_id ?fs) = {1..5}" by code_simp
  have n3: "num_frame ?a3 = int 3" and p3: "(0::nat) < 3" and nd3: "no_duplicates ?a3 \<le> 0"
    by simp_all
  have r3: "(0::int) \<le> 1 \<and> (5::int) < 2 ^ 31 \<and> (3::nat) - 1 \<le> 2 ^ 20" by simp
  note t3 = C4_uniform_count [OF n3 p3 ne nd3 lo hi, of ?H]
  have l3: "linspace 1 5 3 = [1, 3, 5]" by code_simp
  from t3 r3 have all: "set (map f_id ?fs) = {1..5} \<longrightarrow>
        set (map fst (frame_files (frame_loop ?H ?a3 (linspace 1 5 3) ?fs loop0)))
          = set (linspace 1 5 3)"
    by blast
  from t3 obtain s' where s: "select_frames ?H ?a3 ?fs = Inr s'"
    and f: "frame_files s' = sort (pairs (filter (\<lambda>f. f_id f \<in> set (linspace 1 5 3)) ?fs))"
    by blast
  have "sort (pairs (filter (\<lambda>f. f_id f \<in> set (linspace 1 5 3)) ?fs))
      = [(1, ''1.jpg''), (3, ''3.jpg''), (5, ''5.jpg'')]"
    by (simp add: l3 pairs_def less_eq_prod_def)
  with s f have A: "\<exists>s'. select_frames ?H ?a3 ?fs = Inr s'
      \<and> frame_files s' = [(1, ''1.jpg''), (3, ''3.jpg''), (5, ''5.jpg'')]"
    by simp
  from t3 d have B: "length (frame_files (frame_loop ?H ?a3 (linspace 1 5 3) ?fs loop0)) \<le> 3"
    by blast
  from all c have "set (map fst (frame_files (frame_loop ?H ?a3 (linspace 1 5 3) ?fs loop0)))
      = set (linspace 1 5 3)"
    by (rule mp)
  then have C: "set (map fst (frame_files (frame_loop ?H ?a3 (linspace 1 5 3) ?fs loop0))) = {1, 3, 5}"
    by (simp add: l3)
  have n1: "num_frame ?a1 = int 1" and p1: "(0::nat) < 1" and nd1: "no_duplicates ?a1 \<le> 0"
    by simp_all
  have r1: "(0::int) \<le> 1 \<and> (5::int) < 2 ^ 31 \<and> (1::nat) - 1 \<le> 2 ^ 20" by simp
  have d1: "distinct (map f_id ?fs) \<and> (1::nat) = 1" by simp
  from C4_uniform_count [OF n1 p1 ne nd1 lo hi, of ?H] r1 d1
  have D: "map fst (frame_files (frame_loop ?H ?a1 (linspace 1 5 1) ?fs loop0)) = [1]"
    by blast
  from A B C D show ?thesis by blast
qed

lemma sample_1_31:
  "sample_ids \<lparr>skip = 1, num_frame = 23, interval = 0, no_duplicates = 0, hash_size = 8\<rparr> (map f_id (map (\<lambda>i. \<lparr>f_id = i, f_name = fmt08d (nat i) @ ''.jpg'', f_data = ''x''\<rparr>) [1..31])) = Inr (linspace 1 31 23)"
proof -
  have m: "map f_id (map (\<lambda>i. \<lparr>f_id = i, f_name = fmt08d (nat i) @ ''.jpg'', f_data = ''x''\<rparr>) [1..31]) = [1..31]"
    by (simp add: comp_def)
  have "Min (set [1..31::int]) = 1" by (intro Min_eqI) auto
  moreover have "Max (set [1..31::int]) = 31" by (intro Max_eqI) auto
  moreover have "[1..31::int] \<noteq> []" by (simp add: upto.simps)
  ultimately show ?thesis unfolding m by (simp add: sample_ids_def del: set_upto)
qed

lemma linspace_1_31_no_16: "16 \<notin> set (linspace 1 31 23)"
proof
  assume "16 \<in> set (linspace 1 31 23)"
  then obtain i where i: "i < 23" and x: "linspace 1 31 23 ! i = 16"
    by (auto simp add: in_set_conv_nth length_linspace)
  have "linspace 1 31 23 ! i = 1 + (int i * (31 - 1)) div int (23 - 1) \<or>
         (linspace 1 31 23 ! i = 1 + (int i * (31 - 1)) div int (23 - 1) - 1 \<and>
          int (23 - 1) dvd int i * (31 - 1))"
    using i by (intro nth_linspace(2)) simp_all
  then have "16 = 1 + (int i * 30) div 22 \<or> (16 = 1 + (int i * 30) div 22 - 1 \<and> 22 dvd int i * 30)"
    by (simp only: x) simp
  then have c: "(int i * 30) div 22 = 15 \<or> ((int i * 30) div 22 = 16 \<and> 22 dvd int i * 30)"
    by linarith
  have "i = 11" if "(int i * 30) div 22 = 15" using that by presburger
  moreover have "False" if "(int i * 30) div 22 = 16" and "22 dvd int i * 30"
    using that by presburger
  ultimately have "i = 11" using c by blast
  with x linspace_example show False by simp
qed

text \<open>
  C4, against the specification's wording, which rounds to the nearest id. For the
  frame ids 1 to 5 and \<open>n = 4\<close> the points are 1, 2.33, 3.67 and 5: the code retains
  1, 2, 3, 5, while rounding to the nearest id gives 1, 2, 4, 5. And for the frame ids
  1 to 31 and \<open>n = 23\<close> the exact point 11 is \<open>1 + 11 * 30 / 22 = 16\<close>, but the double
  computed for it is just below 16: the code retains frame 15 and not frame 16.
\<close>

theorem C4_nearest_rounding_counterexample:
  "args_ok \<lparr>skip = 1, num_frame = 4, interval = 0, no_duplicates = 0, hash_size = 8\<rparr>
   \<and> sampling_ok \<lparr>skip = 1, num_frame = 4, interval = 0, no_duplicates = 0, hash_size = 8\<rparr>
   \<and> select_frames (\<lambda>b n. []) \<lparr>skip = 1, num_frame = 4, interval = 0, no_duplicates = 0, hash_size = 8\<rparr>
     [\<lparr>f_id = 1, f_name = ''1.jpg'', f_data = ''a''\<rparr>, \<lparr>f_id = 2, f_name = ''2.jpg'', f_data = ''b''\<rparr>,
      \<lparr>f_id = 3, f_name = ''3.jpg'', f_data = ''c''\<rparr>, \<lparr>f_id = 4, f_name = ''4.jpg'', f_data = ''d''\<rparr>,
      \<lparr>f_id = 5, f_name = ''5.jpg'', f_data = ''e''\<rparr>]
     = Inr \<lparr>hashes = [], total_files = 4, duplicates = 0,
          frame_files = [(1, ''1.jpg''), (2, ''2.jpg''), (3, ''3.jpg''), (5, ''5.jpg'')]\<rparr>
   \<and> spec_uniform_ids 1 5 4 = [1, 2, 4, 5]
   \<and> map_sum id (\<lambda>s. (15 \<in> fst ` set (frame_files s), 16 \<in> fst ` set (frame_files s)))
       (select_frames (\<lambda>b n. []) \<lparr>skip = 1, num_frame = 23, interval = 0, no_duplicates = 0, hash_size = 8\<rparr>
          (map (\<lambda>i. \<lparr>f_id = i, f_name = fmt08d (nat i) @ ''.jpg'', f_data = ''x''\<rparr>) [1..31]))
     = Inr (True, False)
   \<and> spec_uniform_ids 1 31 23 ! 11 = 16"
proof -
  let ?H = "\<lambda>(b :: bytes) (n :: int). [] :: hash"
  let ?a4 = "\<lparr>skip = 1, num_frame = 4, interval = 0, no_duplicates = 0, hash_size = 8\<rparr>"
  let ?fs = "[\<lparr>f_id = 1, f_name = ''1.jpg'', f_data = ''a''\<rparr>, \<lparr>f_id = 2, f_name = ''2.jpg'', f_data = ''b''\<rparr>,
      \<lparr>f_id = 3, f_name = ''3.jpg'', f_data = ''c''\<rparr>, \<lparr>f_id = 4, f_name = ''4.jpg'', f_data = ''d''\<rparr>,
      \<lparr>f_id = 5, f_name = ''5.jpg'', f_data = ''e''\<rparr>]"
  have ok: "args_ok ?a4 \<and> sampling_ok ?a4" by (simp add: args_ok_def sampling_ok_def)
  have l4: "linspace 1 5 4 = [1, 2, 3, 5]" by code_simp
  have "sample_ids ?a4 (map f_id ?fs) = Inr (linspace 1 5 4)" by (simp add: sample_ids_def)
  then have A: "select_frames ?H ?a4 ?fs
     = Inr \<lparr>hashes = [], total_files = 4, duplicates = 0,
          frame_files = [(1, ''1.jpg''), (2, ''2.jpg''), (3, ''3.jpg''), (5, ''5.jpg'')]\<rparr>"
    by (simp add: select_frames_def l4 skipped_def loop0_def less_eq_prod_def)
  have B: "spec_uniform_ids 1 5 4 = [1, 2, 4, 5]" by code_simp
  let ?a = "\<lparr>skip = 1, num_frame = 23, interval = 0, no_duplicates = 0, hash_size = 8\<rparr>"
  define f31 where "f31 = (map (\<lambda>i. \<lparr>f_id = i, f_name = fmt08d (nat i) @ ''.jpg'', f_data = ''x''\<rparr>) [1..31])"
  define L where "L = linspace 1 31 23"
  have nd: "no_duplicates ?a \<le> 0" by simp
  have np: "0 < num_frame ?a" by simp
  have keep: "(\<lambda>f. \<not> skipped ?a L (f_id f)) = (\<lambda>f. f_id f \<in> set L)"
    using skipped_sample [OF np] by simp
  have ff: "frame_files (frame_loop ?H ?a L f31 loop0) = pairs (filter (\<lambda>f. f_id f \<in> set L) f31)"
    using frame_loop_no_dedup [OF nd, of ?H L f31 loop0] by (simp only: keep) (simp add: loop0_def)
  have "map fst (pairs (filter (\<lambda>f. f_id f \<in> set L)
      (map (\<lambda>i. \<lparr>f_id = i, f_name = fmt08d (nat i) @ ''.jpg'', f_data = ''x''\<rparr>) xs)))
      = filter (\<lambda>i. i \<in> set L) xs" for xs
    by (induction xs) (simp_all add: pairs_def)
  then have "map fst (pairs (filter (\<lambda>f. f_id f \<in> set L) f31)) = filter (\<lambda>i. i \<in> set L) [1..31]"
    unfolding f31_def .
  then have "set (map fst (pairs (filter (\<lambda>f. f_id f \<in> set L) f31)))
      = set (filter (\<lambda>i. i \<in> set L) [1..31])"
    by (rule arg_cong)
  then have ids: "fst ` set (pairs (filter (\<lambda>f. f_id f \<in> set L) f31)) = {i \<in> {1..31}. i \<in> set L}"
    by (simp only: set_map set_filter set_upto)
  have "length L = 23" unfolding L_def by (rule length_linspace)
  then have "L ! 11 \<in> set L" by (intro nth_mem) simp
  then have in15: "15 \<in> set L" by (simp add: L_def linspace_example)
  have no16: "16 \<notin> set L" unfolding L_def by (rule linspace_1_31_no_16)
  have sel: "select_frames ?H ?a f31
      = Inr ((frame_loop ?H ?a L f31 loop0)\<lparr>frame_files := sort (frame_files (frame_loop ?H ?a L f31 loop0))\<rparr>)"
    unfolding f31_def L_def using sample_1_31 by (simp only: select_frames_def Let_def sum.case)
  have "map_sum id (\<lambda>s. (15 \<in> fst ` set (frame_files s), 16 \<in> fst ` set (frame_files s)))
       (select_frames ?H ?a f31) = Inr (True, False)"
    unfolding sel using in15 no16 by (simp add: ff ids del: frame_loop.simps)
  then have C: "map_sum id (\<lambda>s. (15 \<in> fst ` set (frame_files s), 16 \<in> fst ` set (frame_files s)))
       (select_frames ?H ?a (map (\<lambda>i. \<lparr>f_id = i, f_name = fmt08d (nat i) @ ''.jpg'', f_data = ''x''\<rparr>) [1..31])) = Inr (True, False)"
    unfolding f31_def .
  have D: "spec_uniform_ids 1 31 23 ! 11 = 16" by code_simp
  from ok A B C D show ?thesis by blast
qed

lemma any_within_iff: "any_within limit h hs \<longleftrightarrow> (\<exists>h'\<in>set hs. hamming h h' \<le> limit)"
  by (induction hs) auto

lemma hamming_self: "hamming h h = 0"
  by (induction h) (simp_all add: hamming_def)

lemma detect_duplicate_eq:
  "detect_duplicate H a hs b =
     (if \<exists>h'\<in>set hs. hamming (H b (hash_size a)) h' \<le> diff_limit a then (True, hs)
      else (False, hs @ [H b (hash_size a)]))"
  by (simp add: detect_duplicate_def Let_def any_within_iff)

lemma frame_loop_dedup:
  assumes "0 < no_duplicates a"
    and "spec_dedup (diff_limit a) (\<lambda>b. H b (hash_size a)) (hashes s)
           (filter (\<lambda>f. \<not> skipped a sids (f_id f)) fs) = (kept, hs)"
  shows "hashes (frame_loop H a sids fs s) = hs
    \<and> total_files (frame_loop H a sids fs s)
        = total_files s + length (filter (\<lambda>f. \<not> skipped a sids (f_id f)) fs)
    \<and> duplicates (frame_loop H a sids fs s) + length kept
        = duplicates s + length (filter (\<lambda>f. \<not> skipped a sids (f_id f)) fs)
    \<and> frame_files (frame_loop H a sids fs s) = frame_files s @ pairs kept"
  using assms
proof (induction fs arbitrary: s kept hs)
  case Nil
  then show ?case by (simp add: pairs_def)
next
  case (Cons f rest)
  let ?cand = "filter (\<lambda>f. \<not> skipped a sids (f_id f)) rest"
  let ?h = "H (f_data f) (hash_size a)"
  show ?case
  proof (cases "skipped a sids (f_id f)")
    case True
    with Cons.prems Cons.IH [of s kept hs] show ?thesis by simp
  next
    case sel: False
    let ?s1 = "s\<lparr>total_files := total_files s + 1\<rparr>"
    show ?thesis
    proof (cases "\<exists>h'\<in>set (hashes s). hamming ?h h' \<le> diff_limit a")
      case True
      let ?s2 = "?s1\<lparr>hashes := hashes s, duplicates := duplicates ?s1 + 1\<rparr>"
      from True sel Cons.prems(2)
      have sp: "spec_dedup (diff_limit a) (\<lambda>b. H b (hash_size a)) (hashes ?s2) ?cand = (kept, hs)"
        by simp
      have step: "frame_loop H a sids (f # rest) s = frame_loop H a sids rest ?s2"
        using True sel Cons.prems(1) by (simp add: detect_duplicate_eq Let_def)
      from Cons.IH [OF Cons.prems(1) sp] step sel show ?thesis by simp
    next
      case False
      let ?s2 = "?s1\<lparr>hashes := hashes s @ [?h], frame_files := frame_files ?s1 @ [(f_id f, f_name f)]\<rparr>"
      from False sel Cons.prems(2) obtain kept' where
        sp: "spec_dedup (diff_limit a) (\<lambda>b. H b (hash_size a)) (hashes ?s2) ?cand = (kept', hs)"
        and k: "kept = f # kept'"
        by (auto simp add: Let_def split: prod.splits)
      have step: "frame_loop H a sids (f # rest) s = frame_loop H a sids rest ?s2"
        using False sel Cons.prems(1) by (simp add: detect_duplicate_eq Let_def)
      from Cons.IH [OF Cons.prems(1) sp] step sel k show ?thesis by (simp add: pairs_def)
    qed
  qed
qed

lemma diff_limit_scenario:
  assumes "no_duplicates a = fl64 (99 / 100)" and "hash_size a = 8"
  shows "diff_limit a = 1"
proof -
  have "py_round (fl64 (fl64 (1 - fl64 (99 / 100)) * fl64 (of_int (8\<^sup>2)))) = 1"
    by code_simp
  with assms show ?thesis by (simp only: diff_limit_def Let_def)
qed

text \<open>
  Where the rounding of the doubles shows: for \<^verbatim>\<open>-d 0.98 --hash_size 5\<close> the limit is 1,
  since the double computed for \<open>(1 - 0.98) * 25\<close> is just above one half, while the
  product of the decimals is one half exactly, which rounds to 0.
\<close>

lemma diff_limit_doubles_example:
  "diff_limit \<lparr>skip = 1, num_frame = - 1, interval = 0, no_duplicates = fl64 (98 / 100), hash_size = 5\<rparr> = 1
   \<and> py_round ((1 - 98 / 100) * of_int (5\<^sup>2)) = 0"
  by code_simp


lemma sort_135:
  "sort [(1::int, n1 :: string), (3, n3), (5, n5)] = [(1, n1), (3, n3), (5, n5)]"
  by (simp add: less_eq_prod_def)

lemma scenario_ascending:
  assumes t: "no_duplicates a = fl64 (99 / 100)" and hs: "hash_size a = 8"
    and nf: "num_frame a \<le> 0" and sk: "skip a \<le> 1"
    and ids: "map f_id [f1, f2, f3, f4, f5] = [1, 2, 3, 4, 5]"
    and d2: "f_data f2 = f_data f1" and d4: "f_data f4 = f_data f1"
    and h31: "1 < hamming (H (f_data f3) 8) (H (f_data f1) 8)"
    and h51: "1 < hamming (H (f_data f5) 8) (H (f_data f1) 8)"
    and h53: "1 < hamming (H (f_data f5) 8) (H (f_data f3) 8)"
  shows "select_frames H a [f1, f2, f3, f4, f5] =
    Inr \<lparr>hashes = [H (f_data f1) 8, H (f_data f3) 8, H (f_data f5) 8],
         total_files = 5, duplicates = 2,
         frame_files = [(1, f_name f1), (3, f_name f3), (5, f_name f5)]\<rparr>"
proof -
  have lim: "diff_limit a = 1" by (rule diff_limit_scenario [OF t hs])
  have pos: "0 < no_duplicates a" using t by (simp add: fl64_gt0)
  have ns: "\<not> skipped a [] fid" for fid by (rule not_skipped_plain [OF nf sk])
  have sid: "sample_ids a xs = Inr []" for xs using nf by (simp add: sample_ids_def)
  have loop: "frame_loop H a [] [f1, f2, f3, f4, f5] loop0 =
    \<lparr>hashes = [H (f_data f1) 8, H (f_data f3) 8, H (f_data f5) 8],
     total_files = 5, duplicates = 2,
     frame_files = [(f_id f1, f_name f1), (f_id f3, f_name f3), (f_id f5, f_name f5)]\<rparr>"
    using pos h31 h51 h53
    by (simp add: ns detect_duplicate_eq lim hs d2 d4 hamming_self loop0_def Let_def)
  from ids have "f_id f1 = 1" "f_id f3 = 3" "f_id f5 = 5" by simp_all
  with loop show ?thesis
    by (simp add: select_frames_def sid sort_135 del: frame_loop.simps)
qed

text \<open>
  C2 (duplicate filter), as the code has it. With a threshold \<open>t > 0\<close>:
  \<^verbatim>\<open>detect_duplicate\<close> computes the candidate's fingerprint, reports a duplicate
  (adding nothing) exactly when its distance to some previously accepted fingerprint
  is at most \<open>round((1 - t) * s\<^sup>2)\<close>, the subtraction and the product being those of
  doubles, and otherwise appends the fingerprint; the frame loop is the filter of the
  specification run over the selected files \<^emph>\<open>in the order the directory enumerates
  them\<close> (the retained list is sorted by frame id only afterwards), with
  \<open>total_files\<close> the number of candidates and \<open>duplicates\<close> the number dropped.
  Consequently, for \<open>t = 0.99\<close> (the double nearest to it), hash size 8 and five
  frames that the directory enumerates in ascending order, where frames 2 and 4 have
  the content of frame 1 and the fingerprints of frames 1, 3 and 5 are more than
  \<open>round(0.01 * 64) = 1\<close> apart, frames 1, 3, 5 are retained, with
  \<open>duplicates = 2\<close> and \<open>total_files = 5\<close>.
\<close>

theorem C2_duplicate_filter:
  assumes t: "0 < no_duplicates a"
  shows "detect_duplicate H a hs b =
      (if \<exists>h'\<in>set hs. hamming (H b (hash_size a)) h'
            \<le> py_round (fl64 (fl64 (1 - no_duplicates a) * fl64 (of_int ((hash_size a)\<^sup>2))))
       then (True, hs) else (False, hs @ [H b (hash_size a)]))
    \<and> (spec_dedup (diff_limit a) (\<lambda>b. H b (hash_size a)) []
          (filter (\<lambda>f. \<not> skipped a sids (f_id f)) fs) = (kept, acc) \<longrightarrow>
        frame_files (frame_loop H a sids fs loop0) = pairs kept
        \<and> hashes (frame_loop H a sids fs loop0) = acc
        \<and> total_files (frame_loop H a sids fs loop0)
            = length (filter (\<lambda>f. \<not> skipped a sids (f_id f)) fs)
        \<and> duplicates (frame_loop H a sids fs loop0) + length kept
            = length (filter (\<lambda>f. \<not> skipped a sids (f_id f)) fs))
    \<and> (no_duplicates a = fl64 (99 / 100) \<and> hash_size a = 8 \<and> num_frame a \<le> 0 \<and> skip a \<le> 1
        \<and> map f_id [f1, f2, f3, f4, f5] = [1, 2, 3, 4, 5]
        \<and> f_data f2 = f_data f1 \<and> f_data f4 = f_data f1
        \<and> 1 < hamming (H (f_data f3) 8) (H (f_data f1) 8)
        \<and> 1 < hamming (H (f_data f5) 8) (H (f_data f1) 8)
        \<and> 1 < hamming (H (f_data f5) 8) (H (f_data f3) 8) \<longrightarrow>
        select_frames H a [f1, f2, f3, f4, f5] =
          Inr \<lparr>hashes = [H (f_data f1) 8, H (f_data f3) 8, H (f_data f5) 8],
               total_files = 5, duplicates = 2,
               frame_files = [(1, f_name f1), (3, f_name f3), (5, f_name f5)]\<rparr>)"
proof (intro conjI impI)
  show "detect_duplicate H a hs b =
      (if \<exists>h'\<in>set hs. hamming (H b (hash_size a)) h'
            \<le> py_round (fl64 (fl64 (1 - no_duplicates a) * fl64 (of_int ((hash_size a)\<^sup>2))))
       then (True, hs) else (False, hs @ [H b (hash_size a)]))"
    by (simp only: detect_duplicate_eq diff_limit_def Let_def)
next
  assume sp: "spec_dedup (diff_limit a) (\<lambda>b. H b (hash_size a)) []
          (filter (\<lambda>f. \<not> skipped a sids (f_id f)) fs) = (kept, acc)"
  then have sp0: "spec_dedup (diff_limit a) (\<lambda>b. H b (hash_size a)) (hashes loop0)
          (filter (\<lambda>f. \<not> skipped a sids (f_id f)) fs) = (kept, acc)"
    by (simp add: loop0_def)
  note r = frame_loop_dedup [where a = a and H = H and s = loop0 and sids = sids and fs = fs
      and kept = kept and hs = acc, OF t sp0]
  from r show "frame_files (frame_loop H a sids fs loop0) = pairs kept"
    by (simp add: loop0_def)
  from r show "hashes (frame_loop H a sids fs loop0) = acc" by simp
  from r show "total_files (frame_loop H a sids fs loop0)
            = length (filter (\<lambda>f. \<not> skipped a sids (f_id f)) fs)"
    by (simp add: loop0_def)
  from r show "duplicates (frame_loop H a sids fs loop0) + length kept
            = length (filter (\<lambda>f. \<not> skipped a sids (f_id f)) fs)"
    by (simp add: loop0_def)
next
  assume "no_duplicates a = fl64 (99 / 100) \<and> hash_size a = 8 \<and> num_frame a \<le> 0 \<and> skip a \<le> 1
        \<and> map f_id [f1, f2, f3, f4, f5] = [1, 2, 3, 4, 5]
        \<and> f_data f2 = f_data f1 \<and> f_data f4 = f_data f1
        \<and> 1 < hamming (H (f_data f3) 8) (H (f_data f1) 8)
        \<and> 1 < hamming (H (f_data f5) 8) (H (f_data f1) 8)
        \<and> 1 < hamming (H (f_data f5) 8) (H (f_data f3) 8)"
  then show "select_frames H a [f1, f2, f3, f4, f5] =
          Inr \<lparr>hashes = [H (f_data f1) 8, H (f_data f3) 8, H (f_data f5) 8],
               total_files = 5, duplicates = 2,
               frame_files = [(1, f_name f1), (3, f_name f3), (5, f_name f5)]\<rparr>"
    by (intro scenario_ascending) simp_all
qed

theorem C2_duplicate_filter_witness:
  "map_sum id (\<lambda>s. (frame_files s, duplicates s, total_files s))
     (select_frames (\<lambda>b n. concat (map (\<lambda>c. replicate 16 (c = CHR ''1'')) b)) \<lparr>skip = 1, num_frame = - 1, interval = 0, no_duplicates = fl64 (99 / 100), hash_size = 8\<rparr>
     [\<lparr>f_id = 1, f_name = ''1.jpg'', f_data = ''1100''\<rparr>,
      \<lparr>f_id = 2, f_name = ''2.jpg'', f_data = ''1100''\<rparr>,
      \<lparr>f_id = 3, f_name = ''3.jpg'', f_data = ''0011''\<rparr>,
      \<lparr>f_id = 4, f_name = ''4.jpg'', f_data = ''1100''\<rparr>,
      \<lparr>f_id = 5, f_name = ''5.jpg'', f_data = ''1111''\<rparr>])
   = Inr ([(1, ''1.jpg''), (3, ''3.jpg''), (5, ''5.jpg'')], 2, 5)
   \<and> frame_files (frame_loop (\<lambda>b n. concat (map (\<lambda>c. replicate 16 (c = CHR ''1'')) b)) \<lparr>skip = 1, num_frame = - 1, interval = 0, no_duplicates = fl64 (99 / 100), hash_size = 8\<rparr> [] [\<lparr>f_id = 1, f_name = ''1.jpg'', f_data = ''1100''\<rparr>,
      \<lparr>f_id = 2, f_name = ''2.jpg'', f_data = ''1100''\<rparr>,
      \<lparr>f_id = 3, f_name = ''3.jpg'', f_data = ''0011''\<rparr>,
      \<lparr>f_id = 4, f_name = ''4.jpg'', f_data = ''1100''\<rparr>,
      \<lparr>f_id = 5, f_name = ''5.jpg'', f_data = ''1111''\<rparr>] loop0)
     = pairs (fst (spec_dedup (diff_limit \<lparr>skip = 1, num_frame = - 1, interval = 0, no_duplicates = fl64 (99 / 100), hash_size = 8\<rparr>) (\<lambda>b. (\<lambda>b n. concat (map (\<lambda>c. replicate 16 (c = CHR ''1'')) b)) b 8) [] [\<lparr>f_id = 1, f_name = ''1.jpg'', f_data = ''1100''\<rparr>,
      \<lparr>f_id = 2, f_name = ''2.jpg'', f_data = ''1100''\<rparr>,
      \<lparr>f_id = 3, f_name = ''3.jpg'', f_data = ''0011''\<rparr>,
      \<lparr>f_id = 4, f_name = ''4.jpg'', f_data = ''1100''\<rparr>,
      \<lparr>f_id = 5, f_name = ''5.jpg'', f_data = ''1111''\<rparr>]))"
proof -
  let ?H = "(\<lambda>b n. concat (map (\<lambda>c. replicate 16 (c = CHR ''1'')) b))"
  let ?a = "\<lparr>skip = 1, num_frame = - 1, interval = 0, no_duplicates = fl64 (99 / 100), hash_size = 8\<rparr>"
  let ?f1 = "\<lparr>f_id = 1, f_name = ''1.jpg'', f_data = ''1100''\<rparr>" let ?f2 = "\<lparr>f_id = 2, f_name = ''2.jpg'', f_data = ''1100''\<rparr>" let ?f3 = "\<lparr>f_id = 3, f_name = ''3.jpg'', f_data = ''0011''\<rparr>" let ?f4 = "\<lparr>f_id = 4, f_name = ''4.jpg'', f_data = ''1100''\<rparr>" let ?f5 = "\<lparr>f_id = 5, f_name = ''5.jpg'', f_data = ''1111''\<rparr>"
  have t: "0 < no_duplicates ?a" by (simp add: fl64_gt0)
  have h31: "1 < hamming (?H (f_data ?f3) 8) (?H (f_data ?f1) 8)" by code_simp
  have h51: "1 < hamming (?H (f_data ?f5) 8) (?H (f_data ?f1) 8)" by code_simp
  have h53: "1 < hamming (?H (f_data ?f5) 8) (?H (f_data ?f3) 8)" by code_simp
  have pre: "no_duplicates ?a = fl64 (99 / 100) \<and> hash_size ?a = 8 \<and> num_frame ?a \<le> 0 \<and> skip ?a \<le> 1
        \<and> map f_id [?f1, ?f2, ?f3, ?f4, ?f5] = [1, 2, 3, 4, 5]
        \<and> f_data ?f2 = f_data ?f1 \<and> f_data ?f4 = f_data ?f1
        \<and> 1 < hamming (?H (f_data ?f3) 8) (?H (f_data ?f1) 8)
        \<and> 1 < hamming (?H (f_data ?f5) 8) (?H (f_data ?f1) 8)
        \<and> 1 < hamming (?H (f_data ?f5) 8) (?H (f_data ?f3) 8)"
    using h31 h51 h53 by simp
  note c = C2_duplicate_filter [where a = ?a and H = ?H and hs = "[]" and b = "[]"
      and sids = "[]" and fs = "[]" and kept = "[]" and acc = "[]"
      and ?f1.0 = ?f1 and ?f2.0 = ?f2 and ?f3.0 = ?f3 and ?f4.0 = ?f4 and ?f5.0 = ?f5, OF t]
  from c [THEN conjunct2, THEN conjunct2] pre
  have "select_frames ?H ?a [?f1, ?f2, ?f3, ?f4, ?f5] =
          Inr \<lparr>hashes = [?H (f_data ?f1) 8, ?H (f_data ?f3) 8, ?H (f_data ?f5) 8],
               total_files = 5, duplicates = 2,
               frame_files = [(1, f_name ?f1), (3, f_name ?f3), (5, f_name ?f5)]\<rparr>"
    by (rule mp)
  then have A: "map_sum id (\<lambda>s. (frame_files s, duplicates s, total_files s))
      (select_frames ?H ?a [?f1, ?f2, ?f3, ?f4, ?f5])
      = Inr ([(1, ''1.jpg''), (3, ''3.jpg''), (5, ''5.jpg'')], 2, 5)"
    by simp
  let ?fs = "[?f1, ?f2, ?f3, ?f4, ?f5]"
  let ?sp = "spec_dedup (diff_limit ?a) (\<lambda>b. ?H b (hash_size ?a)) []
      (filter (\<lambda>f. \<not> skipped ?a [] (f_id f)) ?fs)"
  note r = C2_duplicate_filter [where a = ?a and H = ?H and hs = "[]" and b = "[]"
      and sids = "[]" and fs = ?fs and kept = "fst ?sp" and acc = "snd ?sp"
      and ?f1.0 = ?f1 and ?f2.0 = ?f2 and ?f3.0 = ?f3 and ?f4.0 = ?f4 and ?f5.0 = ?f5, OF t]
  have "?sp = (fst ?sp, snd ?sp)" by simp
  with r [THEN conjunct2, THEN conjunct1]
  have "frame_files (frame_loop ?H ?a [] ?fs loop0) = pairs (fst ?sp)"
    by blast
  moreover have "filter (\<lambda>f. \<not> skipped ?a [] (f_id f)) ?fs = ?fs"
    by (simp add: skipped_def)
  ultimately have B: "frame_files (frame_loop ?H ?a [] ?fs loop0)
      = pairs (fst (spec_dedup (diff_limit ?a) (\<lambda>b. ?H b 8) [] ?fs))"
    by simp
  from A B show ?thesis by (rule conjI)
qed

text \<open>
  C2, against the specification's wording, which has the filter run in ascending
  frame-id order, and against its scenario, which asks nothing of frames 3 and 5. The
  loop runs over \<^verbatim>\<open>v_dir.iterdir()\<close>, whose order is arbitrary: when the five frames
  of the scenario are enumerated in descending order, the code retains frames 3, 4, 5
  (frame 4 is met before frames 2 and 1), while the filter run in ascending order
  retains 1, 3, 5. And when the five frames are enumerated in ascending order, frames
  2 and 4 have the content of frame 1, and frames 3 and 5 differ from frame 1 in
  content but not in fingerprint (as images of one solid colour each do under the
  average hash, whose bits are all 0 for them), the code retains frame 1 only, with
  \<open>duplicates = 4\<close>.
\<close>

theorem C2_directory_order_counterexample:
  "args_ok \<lparr>skip = 1, num_frame = - 1, interval = 0, no_duplicates = fl64 (99 / 100), hash_size = 8\<rparr>
   \<and> sampling_ok \<lparr>skip = 1, num_frame = - 1, interval = 0, no_duplicates = fl64 (99 / 100), hash_size = 8\<rparr>
   \<and> map_sum id (\<lambda>s. (frame_files s, duplicates s, total_files s))
     (select_frames (\<lambda>b n. concat (map (\<lambda>c. replicate 16 (c = CHR ''1'')) b)) \<lparr>skip = 1, num_frame = - 1, interval = 0, no_duplicates = fl64 (99 / 100), hash_size = 8\<rparr>
     [\<lparr>f_id = 5, f_name = ''5.jpg'', f_data = ''1111''\<rparr>,
      \<lparr>f_id = 4, f_name = ''4.jpg'', f_data = ''1100''\<rparr>,
      \<lparr>f_id = 3, f_name = ''3.jpg'', f_data = ''0011''\<rparr>,
      \<lparr>f_id = 2, f_name = ''2.jpg'', f_data = ''1100''\<rparr>,
      \<lparr>f_id = 1, f_name = ''1.jpg'', f_data = ''1100''\<rparr>])
   = Inr ([(3, ''3.jpg''), (4, ''4.jpg''), (5, ''5.jpg'')], 2, 5)
   \<and> map f_id (fst (spec_dedup 1 (\<lambda>b. (\<lambda>b n. concat (map (\<lambda>c. replicate 16 (c = CHR ''1'')) b)) b 8) []
     [\<lparr>f_id = 1, f_name = ''1.jpg'', f_data = ''1100''\<rparr>,
      \<lparr>f_id = 2, f_name = ''2.jpg'', f_data = ''1100''\<rparr>,
      \<lparr>f_id = 3, f_name = ''3.jpg'', f_data = ''0011''\<rparr>,
      \<lparr>f_id = 4, f_name = ''4.jpg'', f_data = ''1100''\<rparr>,
      \<lparr>f_id = 5, f_name = ''5.jpg'', f_data = ''1111''\<rparr>]))
   = [1, 3, 5]
   \<and> map_sum id (\<lambda>s. (frame_files s, duplicates s, total_files s))
     (select_frames (\<lambda>b n. replicate 64 False) \<lparr>skip = 1, num_frame = - 1, interval = 0, no_duplicates = fl64 (99 / 100), hash_size = 8\<rparr>
     [\<lparr>f_id = 1, f_name = ''1.jpg'', f_data = ''red''\<rparr>,
      \<lparr>f_id = 2, f_name = ''2.jpg'', f_data = ''red''\<rparr>,
      \<lparr>f_id = 3, f_name = ''3.jpg'', f_data = ''green''\<rparr>,
      \<lparr>f_id = 4, f_name = ''4.jpg'', f_data = ''red''\<rparr>,
      \<lparr>f_id = 5, f_name = ''5.jpg'', f_data = ''blue''\<rparr>])
   = Inr ([(1, ''1.jpg'')], 4, 5)"
proof -
  let ?a = "\<lparr>skip = 1, num_frame = - 1, interval = 0, no_duplicates = fl64 (99 / 100), hash_size = 8\<rparr>"
  have t: "no_duplicates ?a = fl64 (99 / 100)" and hs: "hash_size ?a = 8" by simp_all
  have lim: "diff_limit ?a = 1" by (rule diff_limit_scenario [OF t hs])
  have lt: "fl64 (99 / 100) < 1" by code_simp
  have pos: "0 < fl64 (99 / 100)" by (simp add: fl64_gt0)
  from pos lt have ok: "args_ok ?a \<and> sampling_ok ?a"
    by (simp add: args_ok_def sampling_ok_def)
  have sid: "sample_ids ?a xs = Inr []" for xs by (simp add: sample_ids_def)
  have ns: "\<not> skipped ?a [] fid" for fid by (simp add: skipped_def)
  have dd: "detect_duplicate H ?a hs b =
     (if any_within 1 (H b 8) hs then (True, hs) else (False, hs @ [H b 8]))" for H hs b
    by (simp only: detect_duplicate_def lim Let_def) simp
  have A: "map_sum id (\<lambda>s. (frame_files s, duplicates s, total_files s))
     (select_frames (\<lambda>b n. concat (map (\<lambda>c. replicate 16 (c = CHR ''1'')) b)) ?a
     [\<lparr>f_id = 5, f_name = ''5.jpg'', f_data = ''1111''\<rparr>,
      \<lparr>f_id = 4, f_name = ''4.jpg'', f_data = ''1100''\<rparr>,
      \<lparr>f_id = 3, f_name = ''3.jpg'', f_data = ''0011''\<rparr>,
      \<lparr>f_id = 2, f_name = ''2.jpg'', f_data = ''1100''\<rparr>,
      \<lparr>f_id = 1, f_name = ''1.jpg'', f_data = ''1100''\<rparr>])
   = Inr ([(3, ''3.jpg''), (4, ''4.jpg''), (5, ''5.jpg'')], 2, 5)"
    using pos
    by (simp add: select_frames_def sid ns dd loop0_def Let_def hamming_def less_eq_prod_def)
  have B: "map f_id (fst (spec_dedup 1 (\<lambda>b. (\<lambda>b n. concat (map (\<lambda>c. replicate 16 (c = CHR ''1'')) b)) b 8) []
     [\<lparr>f_id = 1, f_name = ''1.jpg'', f_data = ''1100''\<rparr>,
      \<lparr>f_id = 2, f_name = ''2.jpg'', f_data = ''1100''\<rparr>,
      \<lparr>f_id = 3, f_name = ''3.jpg'', f_data = ''0011''\<rparr>,
      \<lparr>f_id = 4, f_name = ''4.jpg'', f_data = ''1100''\<rparr>,
      \<lparr>f_id = 5, f_name = ''5.jpg'', f_data = ''1111''\<rparr>]))
   = [1, 3, 5]"
    by code_simp
  have C: "map_sum id (\<lambda>s. (frame_files s, duplicates s, total_files s))
     (select_frames (\<lambda>b n. replicate 64 False) ?a
     [\<lparr>f_id = 1, f_name = ''1.jpg'', f_data = ''red''\<rparr>,
      \<lparr>f_id = 2, f_name = ''2.jpg'', f_data = ''red''\<rparr>,
      \<lparr>f_id = 3, f_name = ''3.jpg'', f_data = ''green''\<rparr>,
      \<lparr>f_id = 4, f_name = ''4.jpg'', f_data = ''red''\<rparr>,
      \<lparr>f_id = 5, f_name = ''5.jpg'', f_data = ''blue''\<rparr>])
   = Inr ([(1, ''1.jpg'')], 4, 5)"
    using pos
    by (simp add: select_frames_def sid ns dd loop0_def Let_def hamming_self)
  from ok A B C show ?thesis by blast
qed

section \<open>Results on the loop over the videos\<close>








text \<open>
  The program's own directory scan yields no two videos of the same key, and a single
  file gives one video: in a run of the program no key is met twice. What the loop
  does at a key it has seen before is a property of the loop, stated over any sequence
  of videos.
\<close>

lemma scan_dir_distinct:
  "distinct (map fst all_videos) \<Longrightarrow> fst ` set all_videos \<subseteq> unique_vids
   \<Longrightarrow> distinct (map fst (scan_dir fs all_videos unique_vids))"
proof (induction fs arbitrary: all_videos unique_vids)
  case Nil
  then show ?case by simp
next
  case (Cons f rest)
  show ?case
  proof (cases "snd f \<in> set VIDEO_FORMATS \<and> fst f \<notin> unique_vids")
    case True
    with Cons.prems have "distinct (map fst (all_videos @ [f]))"
      and "fst ` set (all_videos @ [f]) \<subseteq> insert (fst f) unique_vids"
      by auto
    from Cons.IH [OF this] True show ?thesis by simp
  next
    case False
    with Cons.IH [OF Cons.prems] show ?thesis by auto
  qed
qed

lemma all_videos_distinct_stems: "distinct (map fst (scan_dir fs [] {}))"
  by (rule scan_dir_distinct) simp_all



text \<open>
  The zero-frame-rate guard of interval sampling, on a sequence with a repeated key:
  an occurrence of frame rate 0 is left out by \<^verbatim>\<open>continue\<close>, before \<^verbatim>\<open>put\<close> and
  before its key enters \<^verbatim>\<open>done_videos\<close>, whether the key was seen before (the notice
  is printed, \<^verbatim>\<open>put\<close> is not called) or not (then the next occurrence gets no
  notice).
\<close>

lemma frame_rate_guard_example:
  "map_prod id events (process_videos (\<lambda>b n. []) \<lparr>skip = 1, num_frame = - 1, interval = 1, no_duplicates = 0, hash_size = 8\<rparr>
      [\<lparr>stem = ''a'', r_frame_rate = 25, decoded = [\<lparr>f_id = 1, f_name = ''1.jpg'', f_data = ''x''\<rparr>]\<rparr>,
       \<lparr>stem = ''a'', r_frame_rate = 0, decoded = [\<lparr>f_id = 1, f_name = ''1.jpg'', f_data = ''z''\<rparr>]\<rparr>] \<lparr>frame_db = new_storage FILE, done_videos = {}, events = []\<rparr>)
     = (None, [PutCall ''a'' [(1, ''1.jpg'')], Print (SeenBefore ''a''), Print (FrameRateZero ''a'')])
   \<and> map_prod id events (process_videos (\<lambda>b n. []) \<lparr>skip = 1, num_frame = - 1, interval = 1, no_duplicates = 0, hash_size = 8\<rparr>
      [\<lparr>stem = ''a'', r_frame_rate = 0, decoded = [\<lparr>f_id = 1, f_name = ''1.jpg'', f_data = ''z''\<rparr>]\<rparr>,
       \<lparr>stem = ''a'', r_frame_rate = 25, decoded = [\<lparr>f_id = 1, f_name = ''1.jpg'', f_data = ''y''\<rparr>]\<rparr>] \<lparr>frame_db = new_storage FILE, done_videos = {}, events = []\<rparr>)
     = (None, [Print (FrameRateZero ''a''), PutCall ''a'' [(1, ''1.jpg'')]])"
  by code_simp

end
